theory Spec2Isabelle
  imports Main
begin

section \<open>Strings as the code reads them\<close>

text \<open>
  \<^verbatim>\<open>std::string\<close> and \<^verbatim>\<open>vk::string_view\<close> are byte strings: \<^typ>\<open>string\<close>.
  \<^verbatim>\<open>s.substr(pos, n)\<close> clamps \<open>n\<close> to what is left of the string.
\<close>

definition substr :: "string \<Rightarrow> nat \<Rightarrow> nat \<Rightarrow> string" where
  "substr s p n = take n (drop p s)"

definition starts_with :: "string \<Rightarrow> string \<Rightarrow> bool" where
  "starts_with s p = (take (length p) s = p)"

definition ends_with :: "string \<Rightarrow> string \<Rightarrow> bool" where
  "ends_with s p = (length p \<le> length s \<and> drop (length s - length p) s = p)"

definition chr_space :: char where "chr_space = CHR '' ''"
definition chr_tab :: char where "chr_tab = CHR 0x09"
definition chr_newline :: char where "chr_newline = CHR 0x0A"
definition chr_backslash :: char where "chr_backslash = CHR 0x5C"

definition is_upper :: "char \<Rightarrow> bool" where
  "is_upper c = (65 \<le> (of_char c :: nat) \<and> (of_char c :: nat) \<le> 90)"

definition is_lower :: "char \<Rightarrow> bool" where
  "is_lower c = (97 \<le> (of_char c :: nat) \<and> (of_char c :: nat) \<le> 122)"

definition is_digit :: "char \<Rightarrow> bool" where
  "is_digit c = (48 \<le> (of_char c :: nat) \<and> (of_char c :: nat) \<le> 57)"

text \<open>\<^verbatim>\<open>isalnum\<close> of the C locale.\<close>

definition isalnum :: "char \<Rightarrow> bool" where
  "isalnum c = (is_digit c \<or> is_upper c \<or> is_lower c)"

section \<open>Diagnostics\<close>

text \<open>What the code hands to \<^verbatim>\<open>kphp_error\<close>, one constructor for each message.\<close>

datatype diagnostic =
  FailedToParsePhpDoc
  | UnexpectedEnd
  | UnmatchingParens
  | UnmatchingBrackets
  | ExpectedOpen
  | ExpectedComma
  | UnknownTypeName string
  | TrailingInput
  | TraitUsedAsType string
  | BoolInUnion
  | ClassNotFound string

section \<open>Tags of a doc comment (phpdoc.cpp, php_doc_tag and parse_php_doc)\<close>

datatype doc_type =
  param | kphp_inline | kphp_infer | kphp_required | kphp_lib_export | kphp_sync | var
  | returns | kphp_disable_warnings | kphp_extern_func_info | kphp_pure_function
  | kphp_template | kphp_return | kphp_memcache_class | kphp_immutable_class
  | kphp_tl_class | kphp_const | unknown

definition str2doc_type :: "(string \<times> doc_type) list" where
  "str2doc_type =
    [(''@param'', param),
     (''@kphp-inline'', kphp_inline),
     (''@kphp-infer'', kphp_infer),
     (''@kphp-required'', kphp_required),
     (''@kphp-lib-export'', kphp_lib_export),
     (''@kphp-sync'', kphp_sync),
     (''@type'', var),
     (''@var'', var),
     (''@return'', returns),
     (''@returns'', returns),
     (''@kphp-disable-warnings'', kphp_disable_warnings),
     (''@kphp-extern-func-info'', kphp_extern_func_info),
     (''@kphp-pure-function'', kphp_pure_function),
     (''@kphp-template'', kphp_template),
     (''@kphp-return'', kphp_return),
     (''@kphp-memcache-class'', kphp_memcache_class),
     (''@kphp-immutable-class'', kphp_immutable_class),
     (''@kphp-tl-class'', kphp_tl_class),
     (''@kphp-const'', kphp_const)]"

text \<open>
  Modelled from the spec: \<^verbatim>\<open>php_doc_tag::get_doc_type\<close> and the struct \<^verbatim>\<open>php_doc_tag\<close> are
  declared in compiler/phpdoc.h, outside phpdoc.cpp. The lookup in \<open>str2doc_type\<close> is exact,
  and a name outside the vocabulary gets the kind \<open>unknown\<close>, which is also the kind of
  a tag that was only constructed. The fields \<^verbatim>\<open>name\<close>, \<^verbatim>\<open>type\<close> and \<^verbatim>\<open>value\<close> are
  \<open>tag_name\<close>, \<open>tag_type\<close> and \<open>tag_value\<close> here; \<open>line_num\<close> is \<open>None\<close> as long as
  nothing was assigned to it.
\<close>

definition get_doc_type :: "string \<Rightarrow> doc_type" where
  "get_doc_type str = (case map_of str2doc_type str of Some t \<Rightarrow> t | None \<Rightarrow> unknown)"

record php_doc_tag =
  tag_name :: string
  tag_type :: doc_type
  tag_value :: string
  line_num :: "int option"

definition new_php_doc_tag :: php_doc_tag where
  "new_php_doc_tag = \<lparr>tag_name = [], tag_type = unknown, tag_value = [], line_num = None\<rparr>"

subsection \<open>php_doc_tag::get_value_token\<close>

text \<open>\<^verbatim>\<open>value.find(c, from)\<close>: the first index at or after \<open>from\<close> that holds \<open>c\<close>.\<close>

definition find_char :: "string \<Rightarrow> char \<Rightarrow> nat \<Rightarrow> nat option" where
  "find_char s c from =
     (if c \<in> set (drop from s)
      then Some (from + length (takeWhile (\<lambda>x. x \<noteq> c) (drop from s)))
      else None)"

text \<open>
  The first loop counts the spaces at the start of the value and moves \<open>chars_offset\<close>
  by as many; the second loop skips the spaces at \<open>chars_offset\<close>. A call without
  argument, \<^verbatim>\<open>tag.get_value_token()\<close>, starts at offset 0.
\<close>

definition get_value_token :: "string \<Rightarrow> nat \<Rightarrow> string" where
  "get_value_token val chars_offset =
     (let len = length val;
          lead = length (takeWhile (\<lambda>c. c = chr_space) val);
          chars_offset1 = chars_offset + lead;
          chars_offset2 =
            chars_offset1 + length (takeWhile (\<lambda>c. c = chr_space) (drop chars_offset1 val))
      in
        if chars_offset2 \<ge> len then []
        else
          (case find_char val chr_space chars_offset2 of
             None \<Rightarrow> drop chars_offset2 val
           | Some p \<Rightarrow>
               (let p' = (if len > p + 5 \<and> substr val p 5 = '' ...$'' then p + 4 else p)
                in substr val chars_offset2 (p' - chars_offset2))))"

subsection \<open>parse_php_doc\<close>

text \<open>
  The first loop: the characters of the comment, the lines collected so far (never empty:
  \<^verbatim>\<open>vector<string> lines(1)\<close>) and the flag \<open>have_star\<close>. \<open>None\<close> is the early return
  after \<^verbatim>\<open>kphp_error(0, "failed to parse php_doc")\<close>.
\<close>

definition append_to_back :: "char \<Rightarrow> string list \<Rightarrow> string list" where
  "append_to_back c lines = butlast lines @ [last lines @ [c]]"

fun scan_lines :: "string \<Rightarrow> string list \<Rightarrow> bool \<Rightarrow> string list option" where
  "scan_lines [] lines have_star = Some lines"
| "scan_lines (c # cs) lines have_star =
     (if \<not> have_star then
        (if c = chr_space \<or> c = chr_tab then scan_lines cs lines have_star
         else if c = CHR ''*'' then scan_lines cs lines True
         else None)
      else if c = chr_newline then scan_lines cs (lines @ [[]]) False
      else if last lines = [] \<and> (c = chr_space \<or> c = chr_tab) then scan_lines cs lines have_star
      else scan_lines cs (append_to_back c lines) have_star)"

text \<open>
  \<^verbatim>\<open>result.back()\<close> is changed in place; \<open>result\<close> is never empty in the second loop,
  which starts from one default tag.
\<close>

definition update_back :: "(php_doc_tag \<Rightarrow> php_doc_tag) \<Rightarrow> php_doc_tag list \<Rightarrow> php_doc_tag list" where
  "update_back f result = (if result = [] then [] else butlast result @ [f (last result)])"

text \<open>\<^verbatim>\<open>lines[i][0] != '@'\<close>; on an empty line the read finds the terminating zero.\<close>

definition starts_with_at :: "string \<Rightarrow> bool" where
  "starts_with_at l = (case l of [] \<Rightarrow> False | c # _ \<Rightarrow> c = CHR ''@'')"

definition tag_or_continuation :: "string \<Rightarrow> php_doc_tag list \<Rightarrow> php_doc_tag list" where
  "tag_or_continuation l result =
     (if \<not> starts_with_at l
      then update_back (\<lambda>t. t\<lparr>tag_value := tag_value t @ chr_space # l\<rparr>) result
      else
        (let name = takeWhile (\<lambda>c. c \<noteq> chr_space) l
         in result @
            [\<lparr>tag_name = name, tag_type = get_doc_type name,
              tag_value =
                (case find_char l chr_space 0 of None \<Rightarrow> [] | Some p \<Rightarrow> drop (p + 1) l),
              line_num = None\<rparr>]))"

text \<open>
  The body of the second loop for line \<open>i\<close> of \<open>n\<close> lines. Line numbers are C \<^verbatim>\<open>int\<close>s;
  with fewer than \<open>2^31\<close> lines and a positive declaration line nothing wraps, and they are
  \<^typ>\<open>int\<close> here.
\<close>

definition set_line_num :: "int \<Rightarrow> nat \<Rightarrow> nat \<Rightarrow> php_doc_tag list \<Rightarrow> php_doc_tag list" where
  "set_line_num line_num_of_function_declaration n i result =
     (if line_num_of_function_declaration > 0
      then
        (let new_line_num = line_num_of_function_declaration - (int n - int i)
         in update_back
              (\<lambda>t. t\<lparr>line_num := Some (min new_line_num (line_num_of_function_declaration - 2))\<rparr>)
              result)
      else result)"

fun build_tags :: "int \<Rightarrow> nat \<Rightarrow> nat \<Rightarrow> string list \<Rightarrow> php_doc_tag list \<Rightarrow> php_doc_tag list" where
  "build_tags decl n i [] result = result"
| "build_tags decl n i (l # ls) result =
     build_tags decl n (Suc i) ls (set_line_num decl n i (tag_or_continuation l result))"

text \<open>
  \<^verbatim>\<open>stage::get_line()\<close> is the first argument. The result is the vector of tags and the
  diagnostics reported.
\<close>

definition parse_php_doc :: "int \<Rightarrow> string \<Rightarrow> php_doc_tag list \<times> diagnostic list" where
  "parse_php_doc line_num_of_function_declaration phpdoc =
     (case scan_lines phpdoc [[]] False of
        None \<Rightarrow> ([], [FailedToParsePhpDoc])
      | Some lines \<Rightarrow>
          (build_tags line_num_of_function_declaration (length lines) 0 lines [new_php_doc_tag],
           []))"

subsection \<open>find_tag_in_phpdoc and is_tag_in_phpdoc\<close>

text \<open>The two tokens of a tag value and what they are taken for: variable name, type text.\<close>

definition name_and_type :: "string \<Rightarrow> string \<times> string" where
  "name_and_type val =
     (let a1 = get_value_token val 0;
          a2 = get_value_token val (length a1)
      in
        if a1 \<noteq> [] \<and> hd a1 = CHR ''$'' then (tl a1, a2)
        else if a2 \<noteq> [] \<and> hd a2 = CHR ''$'' then (tl a2, a1)
        else ([], a1))"

text \<open>
  The loop over the tags; \<open>idx\<close> counts the tags of the kind asked for that were passed
  over. \<open>None\<close> is the result \<^verbatim>\<open>false\<close>, which leaves both output strings alone.
\<close>

fun find_tag :: "php_doc_tag list \<Rightarrow> doc_type \<Rightarrow> int \<Rightarrow> int \<Rightarrow> (string \<times> string) option" where
  "find_tag [] dt offset idx = None"
| "find_tag (tag # tags) dt offset idx =
     (if tag_type tag = dt
      then (if idx \<ge> offset then Some (name_and_type (tag_value tag))
            else find_tag tags dt offset (idx + 1))
      else find_tag tags dt offset idx)"

definition find_tag_in_phpdoc ::
    "int \<Rightarrow> string \<Rightarrow> doc_type \<Rightarrow> int \<Rightarrow> (string \<times> string) option" where
  "find_tag_in_phpdoc line phpdoc dt offset = find_tag (fst (parse_php_doc line phpdoc)) dt offset 0"

definition is_tag_in_phpdoc :: "int \<Rightarrow> string \<Rightarrow> doc_type \<Rightarrow> bool" where
  "is_tag_in_phpdoc line phpdoc dt = list_ex (\<lambda>tag. tag_type tag = dt) (fst (parse_php_doc line phpdoc))"

section \<open>The type-rule parser (phpdoc.cpp, PhpDocTypeRuleParser)\<close>

subsection \<open>Vertices, classes, diagnostics\<close>

datatype PrimitiveType =
  tp_Unknown | tp_False | tp_bool | tp_int | tp_float | tp_array | tp_string | tp_var
  | tp_void | tp_tuple | tp_future | tp_Class

text \<open>
  A \<^verbatim>\<open>ClassPtr\<close> is a handle that may be null. Of the class it points to the parser
  reads only \<^verbatim>\<open>get_name()\<close> and \<^verbatim>\<open>is_trait()\<close>.
\<close>

record class_data =
  get_name :: string
  is_trait :: bool

type_synonym ClassPtr = "class_data option"

text \<open>
  The three vertex kinds the parser creates. A \<^verbatim>\<open>VertexPtr\<close> is \<open>vertex option\<close>,
  \<open>None\<close> being the null pointer that every failed parse returns.
\<close>

datatype vertex =
  op_type_expr_type PrimitiveType "vertex list"
  | op_type_expr_lca vertex vertex
  | op_type_expr_class ClassPtr

text \<open>
  The resolution context. \<^verbatim>\<open>resolve_uses(current_function, name, '\\')\<close>,
  \<^verbatim>\<open>G->get_class(name)\<close>, \<^verbatim>\<open>G->env().get_tl_namespace_prefix()\<close> and
  \<^verbatim>\<open>current_function->class_id\<close> belong to the surrounding compiler; they are
  parameters here.
\<close>

record env =
  resolve_uses :: "string \<Rightarrow> string"
  get_class :: "string \<Rightarrow> ClassPtr"
  tl_namespace_prefix :: string
  current_class_id :: ClassPtr

text \<open>
  What a parse reads and writes besides its result: the position \<^verbatim>\<open>size_t &pos\<close>, the
  member \<^verbatim>\<open>unknown_classes_list\<close>, and the diagnostics given to \<^verbatim>\<open>kphp_error\<close>,
  in order.
\<close>

record pstate =
  pos :: nat
  unknown_classes_list :: "string list"
  diags :: "diagnostic list"

text \<open>
  Modelled from the spec: the macro \<^verbatim>\<open>kphp_error(x, y)\<close> is defined outside phpdoc.cpp.
  It reports \<open>y\<close> when \<open>x\<close> is false, and the code after it goes on; \<^verbatim>\<open>CHECK(x, y)\<close>,
  defined in phpdoc.cpp as \<^verbatim>\<open>if (kphp_error(x, y)) {return VertexPtr();}\<close>, then returns
  the null vertex. The message \<open>y\<close> is an argument of a macro and is evaluated only when
  it is reported.
\<close>

definition kphp_error :: "bool \<Rightarrow> diagnostic \<Rightarrow> pstate \<Rightarrow> pstate" where
  "kphp_error x y st = (if x then st else st\<lparr>diags := diags st @ [y]\<rparr>)"

definition fail :: "diagnostic \<Rightarrow> pstate \<Rightarrow> vertex option \<times> pstate" where
  "fail y st = (None, kphp_error False y st)"

definition create_type_help_vertex :: "PrimitiveType \<Rightarrow> vertex" where
  "create_type_help_vertex t = op_type_expr_type t []"

text \<open>
  Modelled from the spec: \<^verbatim>\<open>GenTree::create_type_help_class_vertex(klass)\<close> is defined
  outside phpdoc.cpp; it makes the class-reference vertex of the handle it is given, and
  the handle is all it is given.
\<close>

definition create_type_help_class_vertex :: "ClassPtr \<Rightarrow> vertex" where
  "create_type_help_class_vertex klass = op_type_expr_class klass"

subsection \<open>Class names\<close>

definition extract_classname_from_pos :: "string \<Rightarrow> nat \<Rightarrow> string" where
  "extract_classname_from_pos str p =
     takeWhile (\<lambda>c. isalnum c \<or> c = chr_backslash \<or> c = CHR ''_'') (drop p str)"

definition unknown_type_name :: "string \<Rightarrow> pstate \<Rightarrow> vertex option \<times> pstate" where
  "unknown_type_name s st = fail (UnknownTypeName s) st"

text \<open>
  The \<^verbatim>\<open>default:\<close> branch of the switch in \<^verbatim>\<open>parse_simple_type\<close>, which the
  \<^verbatim>\<open>'\\'\<close> case falls through to. After the prefix \<^verbatim>\<open>@tl\\<close> the position may be the
  end of the string; the read \<^verbatim>\<open>s[pos]\<close> there finds no character that starts a name.
\<close>

definition parse_class_name :: "env \<Rightarrow> string \<Rightarrow> pstate \<Rightarrow> vertex option \<times> pstate" where
  "parse_class_name e s st =
    (let has_tl_namespace_prefix = starts_with (drop (pos st) s) (''@tl'' @ [chr_backslash]);
         p = (if has_tl_namespace_prefix then pos st + 4 else pos st)
     in
       if p < length s \<and>
          (s ! p = chr_backslash \<or> is_upper (s ! p) \<or>
           (has_tl_namespace_prefix \<and> (is_lower (s ! p) \<or> s ! p = CHR ''_'')))
       then
         (let relative_class_name = extract_classname_from_pos s p;
              p' = p + length relative_class_name;
              relative_class_name' =
                (if has_tl_namespace_prefix then tl_namespace_prefix e @ relative_class_name
                 else relative_class_name);
              class_name = resolve_uses e relative_class_name';
              klass = get_class e class_name;
              st1 = st\<lparr>pos := p'\<rparr>
          in case klass of
               None \<Rightarrow>
                 (Some (create_type_help_class_vertex klass),
                  st1\<lparr>unknown_classes_list := unknown_classes_list st1 @ [class_name]\<rparr>)
             | Some k \<Rightarrow>
                 (Some (create_type_help_class_vertex klass),
                  kphp_error (\<not> is_trait k) (TraitUsedAsType (get_name k)) st1))
       else unknown_type_name s (st\<lparr>pos := p\<rparr>))"

subsection \<open>The array suffix loop\<close>

text \<open>The \<^verbatim>\<open>while\<close> loop of \<^verbatim>\<open>parse_type_array\<close>; it calls no other parser.\<close>

function array_suffixes :: "string \<Rightarrow> vertex \<Rightarrow> pstate \<Rightarrow> vertex option \<times> pstate" where
  "array_suffixes s res st =
     (if pos st < length s \<and> s ! pos st = CHR ''[''
      then
        (if \<not> (pos st + 1 < length s \<and> s ! (pos st + 1) = CHR '']'')
         then fail UnmatchingBrackets st
         else array_suffixes s (op_type_expr_type tp_array [res]) (st\<lparr>pos := pos st + 2\<rparr>))
      else (Some res, st))"
  by pat_completeness auto
termination
  by (relation "measure (\<lambda>(s, res, st). length s - pos st)") auto

declare array_suffixes.simps [simp del]

subsection \<open>The mutually recursive parsers\<close>

text \<open>
  A keyword that stands for a vertex: the position moves past it.
\<close>

definition keyword :: "vertex \<Rightarrow> nat \<Rightarrow> pstate \<Rightarrow> vertex option \<times> pstate" where
  "keyword v n st = (Some v, st\<lparr>pos := pos st + n\<rparr>)"

function
  parse_simple_type :: "env \<Rightarrow> string \<Rightarrow> pstate \<Rightarrow> vertex option \<times> pstate" and
  parse_type_array :: "env \<Rightarrow> string \<Rightarrow> pstate \<Rightarrow> vertex option \<times> pstate" and
  parse_nested_type_rule ::
    "env \<Rightarrow> string \<Rightarrow> PrimitiveType \<Rightarrow> pstate \<Rightarrow> vertex option \<times> pstate" and
  nested_sub_types ::
    "env \<Rightarrow> string \<Rightarrow> vertex list \<Rightarrow> pstate \<Rightarrow> vertex list option \<times> pstate" and
  parse_type_expression :: "env \<Rightarrow> string \<Rightarrow> pstate \<Rightarrow> vertex option \<times> pstate" and
  union_members ::
    "env \<Rightarrow> string \<Rightarrow> vertex \<Rightarrow> bool \<Rightarrow> pstate \<Rightarrow> (vertex \<times> bool) option \<times> pstate"
where
  "parse_simple_type e s st =
    (if \<not> pos st < length s then fail UnexpectedEnd st
     else if s ! pos st = CHR ''('' then
       (case parse_type_expression e s (st\<lparr>pos := pos st + 1\<rparr>) of
          (None, st1) \<Rightarrow> (None, st1)
        | (Some v, st1) \<Rightarrow>
            if \<not> (pos st1 < length s \<and> s ! pos st1 = CHR '')'')
            then fail UnmatchingParens st1
            else (Some v, st1\<lparr>pos := pos st1 + 1\<rparr>))
     else if s ! pos st = CHR ''s'' then
       (if substr s (pos st) 6 = ''string'' then keyword (create_type_help_vertex tp_string) 6 st
        else if substr s (pos st) 4 = ''self''
        then keyword (create_type_help_class_vertex (current_class_id e)) 4 st
        else unknown_type_name s st)
     else if s ! pos st = CHR ''i'' then
       (if substr s (pos st) 7 = ''integer'' then keyword (create_type_help_vertex tp_int) 7 st
        else if substr s (pos st) 3 = ''int'' then keyword (create_type_help_vertex tp_int) 3 st
        else unknown_type_name s st)
     else if s ! pos st = CHR ''b'' then
       (if substr s (pos st) 7 = ''boolean'' then keyword (create_type_help_vertex tp_bool) 7 st
        else if substr s (pos st) 4 = ''bool'' then keyword (create_type_help_vertex tp_bool) 4 st
        else unknown_type_name s st)
     else if s ! pos st = CHR ''f'' then
       (if substr s (pos st) 5 = ''float'' then keyword (create_type_help_vertex tp_float) 5 st
        else if substr s (pos st) 5 = ''false''
        then keyword (create_type_help_vertex tp_False) 5 st
        else if substr s (pos st) 6 = ''future''
        then parse_nested_type_rule e s tp_future (st\<lparr>pos := pos st + 6\<rparr>)
        else unknown_type_name s st)
     else if s ! pos st = CHR ''d'' then
       (if substr s (pos st) 6 = ''double'' then keyword (create_type_help_vertex tp_float) 6 st
        else unknown_type_name s st)
     else if s ! pos st = CHR ''m'' then
       (if substr s (pos st) 5 = ''mixed'' then keyword (create_type_help_vertex tp_var) 5 st
        else unknown_type_name s st)
     else if s ! pos st = CHR ''n'' then
       (if substr s (pos st) 4 = ''null'' then keyword (create_type_help_vertex tp_var) 4 st
        else unknown_type_name s st)
     else if s ! pos st = CHR ''t'' then
       (if substr s (pos st) 4 = ''true'' then keyword (create_type_help_vertex tp_bool) 4 st
        else if substr s (pos st) 5 = ''tuple''
        then parse_nested_type_rule e s tp_tuple (st\<lparr>pos := pos st + 5\<rparr>)
        else unknown_type_name s st)
     else if s ! pos st = CHR ''a'' then
       (if substr s (pos st) 5 = ''array''
        then keyword (op_type_expr_type tp_array [create_type_help_vertex tp_Unknown]) 5 st
        else unknown_type_name s st)
     else if s ! pos st = CHR ''v'' then
       (if substr s (pos st) 4 = ''void'' then keyword (create_type_help_vertex tp_void) 4 st
        else unknown_type_name s st)
     else if s ! pos st = chr_backslash then
       (if substr s (pos st) 6 = chr_backslash # ''tuple''
        then parse_nested_type_rule e s tp_tuple (st\<lparr>pos := pos st + 6\<rparr>)
        else if substr s (pos st) 7 = chr_backslash # ''future''
        then parse_nested_type_rule e s tp_future (st\<lparr>pos := pos st + 7\<rparr>)
        else parse_class_name e s st)
     else parse_class_name e s st)"
| "parse_type_array e s st =
    (case parse_simple_type e s st of
       (None, st1) \<Rightarrow> (None, st1)
     | (Some res, st1) \<Rightarrow> array_suffixes s res st1)"
| "parse_nested_type_rule e s type_help st =
    (if \<not> (pos st < length s \<and> (s ! pos st = CHR ''<'' \<or> s ! pos st = CHR ''(''))
     then fail ExpectedOpen st
     else
       (case nested_sub_types e s [] (st\<lparr>pos := pos st + 1\<rparr>) of
          (None, st1) \<Rightarrow> (None, st1)
        | (Some sub_types, st1) \<Rightarrow> (Some (op_type_expr_type type_help sub_types), st1)))"
| "nested_sub_types e s sub_types st =
    (case parse_type_expression e s st of
       (None, st1) \<Rightarrow> (None, st1)
     | (Some v, st1) \<Rightarrow>
         if \<not> pos st1 < length s then (None, kphp_error False UnexpectedEnd st1)
         else if s ! pos st1 = CHR ''>'' \<or> s ! pos st1 = CHR '')''
         then (Some (sub_types @ [v]), st1\<lparr>pos := pos st1 + 1\<rparr>)
         else if \<not> s ! pos st1 = CHR '',''
         then (None, kphp_error False ExpectedComma st1)
         else nested_sub_types e s (sub_types @ [v]) (st1\<lparr>pos := pos st1 + 1\<rparr>))"
| "parse_type_expression e s st =
    (case parse_type_array e s st of
       (None, st1) \<Rightarrow> (None, st1)
     | (Some res, st1) \<Rightarrow>
         (case union_members e s res (substr s (pos st) (pos st1 - pos st) = ''bool'') st1 of
            (None, st2) \<Rightarrow> (None, st2)
          | (Some (res', has_raw_bool), st2) \<Rightarrow>
              (case res' of
                 op_type_expr_lca l r \<Rightarrow> (Some res', kphp_error (\<not> has_raw_bool) BoolInUnion st2)
               | _ \<Rightarrow> (Some res', st2))))"
| "union_members e s res has_raw_bool st =
    (if pos st < length s \<and> s ! pos st = CHR ''|''
     then
       (case parse_type_array e s (st\<lparr>pos := pos st + 1\<rparr>) of
          (None, st1) \<Rightarrow> (None, st1)
        | (Some next, st1) \<Rightarrow>
            union_members e s (op_type_expr_lca res next)
              (has_raw_bool \<or> substr s (pos st + 1) (pos st1 - (pos st + 1)) = ''bool'') st1)
     else (Some (res, has_raw_bool), st))"
  by pat_completeness auto

subsection \<open>parse_from_type_string and phpdoc_parse_type\<close>

text \<open>
  \<open>st\<close> is the parser object before the call (its list of unknown classes and what was
  reported so far); the position is the local \<^verbatim>\<open>size_t pos = 0\<close>.
\<close>

definition parse_from_type_string :: "env \<Rightarrow> string \<Rightarrow> pstate \<Rightarrow> vertex option \<times> pstate" where
  "parse_from_type_string e type_str st =
     (case parse_type_expression e type_str (st\<lparr>pos := 0\<rparr>) of
        (None, st1) \<Rightarrow> (None, st1)
      | (Some res, st1) \<Rightarrow>
          (let (res', st2) =
                 (if length type_str = pos st1 + 4 \<and> ends_with type_str '' ...''
                  then (op_type_expr_type tp_array [res], st1\<lparr>pos := pos st1 + 4\<rparr>)
                  else (res, st1))
           in if \<not> pos st2 = length type_str then fail TrailingInput st2
              else (Some res', st2)))"

definition new_parser :: pstate where
  "new_parser = \<lparr>pos = 0, unknown_classes_list = [], diags = []\<rparr>"

text \<open>The result and the diagnostics of the call.\<close>

definition phpdoc_parse_type :: "env \<Rightarrow> string \<Rightarrow> vertex option \<times> diagnostic list" where
  "phpdoc_parse_type e type_str =
     (case parse_from_type_string e type_str new_parser of
        (doc_type, parser) \<Rightarrow>
          (case unknown_classes_list parser of
             [] \<Rightarrow> (doc_type, diags parser)
           | c # _ \<Rightarrow> (None, diags parser @ [ClassNotFound c])))"

section \<open>Notions used in the statements\<close>

subsection \<open>The measure of the parsers\<close>

text \<open>
  The text left, and the rank of the parser: among calls at the same position the order is
  simple type, array, expression, argument list. \<open>parse_dom\<close> is the domain of the six
  mutually recursive parsers.
\<close>

type_synonym parse_args =
  "(env \<times> string \<times> pstate + env \<times> string \<times> pstate + env \<times> string \<times> PrimitiveType \<times> pstate) +
   env \<times> string \<times> vertex list \<times> pstate + env \<times> string \<times> pstate +
   env \<times> string \<times> vertex \<times> bool \<times> pstate"

definition parse_left :: "parse_args \<Rightarrow> nat" where
  "parse_left = case_sum
     (case_sum (\<lambda>(e, s, st). length s - pos st)
        (case_sum (\<lambda>(e, s, st). length s - pos st) (\<lambda>(e, s, th, st). length s - pos st)))
     (case_sum (\<lambda>(e, s, subs, st). length s - pos st)
        (case_sum (\<lambda>(e, s, st). length s - pos st) (\<lambda>(e, s, res, hb, st). length s - pos st)))"

definition parse_rank :: "parse_args \<Rightarrow> nat" where
  "parse_rank = case_sum
     (case_sum (\<lambda>_. 0) (case_sum (\<lambda>_. 1) (\<lambda>_. 0)))
     (case_sum (\<lambda>_. 3) (case_sum (\<lambda>_. 2) (\<lambda>_. 0)))"

abbreviation (input) parse_dom where
  "parse_dom \<equiv>
     parse_simple_type_parse_type_array_parse_nested_type_rule_nested_sub_types_parse_type_expression_union_members_dom"

subsection \<open>Type strings and what parsing them is to yield\<close>

text \<open>
  The statements about the grammar quantify over the type strings that it generates. An
  atom is one of the keywords of the switch in \<^verbatim>\<open>parse_simple_type\<close> that stand for one
  vertex, or a class name that starts with an upper-case letter; \<open>atom_vertex\<close>,
  \<open>atom_unknown\<close> and \<open>atom_diags\<close> are the vertex, the unknown classes and the
  diagnostics that belong to it in a resolution context.
\<close>

definition classname_char :: "char \<Rightarrow> bool" where
  "classname_char c = (isalnum c \<or> c = chr_backslash \<or> c = CHR ''_'')"

definition primitive_keywords :: "env \<Rightarrow> (string \<times> vertex) list" where
  "primitive_keywords e =
    [(''string'', create_type_help_vertex tp_string),
     (''self'', create_type_help_class_vertex (current_class_id e)),
     (''integer'', create_type_help_vertex tp_int),
     (''int'', create_type_help_vertex tp_int),
     (''boolean'', create_type_help_vertex tp_bool),
     (''bool'', create_type_help_vertex tp_bool),
     (''float'', create_type_help_vertex tp_float),
     (''false'', create_type_help_vertex tp_False),
     (''double'', create_type_help_vertex tp_float),
     (''mixed'', create_type_help_vertex tp_var),
     (''null'', create_type_help_vertex tp_var),
     (''true'', create_type_help_vertex tp_bool),
     (''array'', op_type_expr_type tp_array [create_type_help_vertex tp_Unknown]),
     (''void'', create_type_help_vertex tp_void)]"

datatype atom = Keyword string | ClassName string

fun atom_text :: "atom \<Rightarrow> string" where
  "atom_text (Keyword k) = k"
| "atom_text (ClassName c) = c"

fun atom_ok :: "env \<Rightarrow> atom \<Rightarrow> bool" where
  "atom_ok e (Keyword k) = (k \<in> set (map fst (primitive_keywords e)))"
| "atom_ok e (ClassName c) = (c \<noteq> [] \<and> is_upper (hd c) \<and> list_all classname_char c)"

fun atom_vertex :: "env \<Rightarrow> atom \<Rightarrow> vertex" where
  "atom_vertex e (Keyword k) =
     (case map_of (primitive_keywords e) k of
        Some v \<Rightarrow> v
      | None \<Rightarrow> create_type_help_vertex tp_Unknown)"
| "atom_vertex e (ClassName c) = create_type_help_class_vertex (get_class e (resolve_uses e c))"

fun atom_unknown :: "env \<Rightarrow> atom \<Rightarrow> string list" where
  "atom_unknown e (Keyword k) = []"
| "atom_unknown e (ClassName c) =
     (case get_class e (resolve_uses e c) of None \<Rightarrow> [resolve_uses e c] | Some k \<Rightarrow> [])"

fun atom_diags :: "env \<Rightarrow> atom \<Rightarrow> diagnostic list" where
  "atom_diags e (Keyword k) = []"
| "atom_diags e (ClassName c) =
     (case get_class e (resolve_uses e c) of
        None \<Rightarrow> []
      | Some k \<Rightarrow> if is_trait k then [TraitUsedAsType (get_name k)] else [])"

text \<open>
  A simple type is an atom, a union in parentheses, or one of the four spellings of
  \<^verbatim>\<open>tuple\<close> and \<^verbatim>\<open>future\<close> with an opening bracket, a closing bracket and a list of
  unions as arguments. A member of a union is a simple type with a number of \<^verbatim>\<open>[]\<close>
  pairs; a union is a list of members.
\<close>

definition nested_keywords :: "(string \<times> PrimitiveType) list" where
  "nested_keywords =
     [(''tuple'', tp_tuple), (''future'', tp_future),
      (chr_backslash # ''tuple'', tp_tuple), (chr_backslash # ''future'', tp_future)]"

datatype simple =
  Atom atom
  | Paren "(simple \<times> nat) list"
  | Nested "string \<times> PrimitiveType" char char "(simple \<times> nat) list list"

text \<open>
  The outcome that belongs to a piece of syntax: its text, the vertex, the unknown classes
  and the diagnostics, both in the order of the text. \<open>expected\<close> goes through a simple
  type: a member wraps the vertex of its simple type in one array for each \<^verbatim>\<open>[]\<close>; a
  union folds the vertices of its members from the left, and adds the diagnostic for
  \<^verbatim>\<open>bool\<close> when it has two members or more and the text of one of them is \<^verbatim>\<open>bool\<close>.
\<close>

definition array_of :: "vertex \<Rightarrow> vertex" where
  "array_of v = op_type_expr_type tp_array [v]"

record outcome =
  text_of :: string
  tree :: vertex
  unknown :: "string list"
  reported :: "diagnostic list"

definition member_outcome :: "outcome \<times> nat \<Rightarrow> outcome" where
  "member_outcome m =
     (fst m)\<lparr>text_of := text_of (fst m) @ concat (replicate (snd m) ''[]''),
             tree := (array_of ^^ snd m) (tree (fst m))\<rparr>"

definition union_of :: "outcome \<Rightarrow> outcome list \<Rightarrow> outcome" where
  "union_of m ms =
     \<lparr>text_of = text_of m @ concat (map (\<lambda>m. CHR ''|'' # text_of m) ms),
      tree = foldl op_type_expr_lca (tree m) (map tree ms),
      unknown = concat (map unknown (m # ms)),
      reported = concat (map reported (m # ms)) @
        (if ms \<noteq> [] \<and> list_ex (\<lambda>m. text_of m = ''bool'') (m # ms) then [BoolInUnion] else [])\<rparr>"

definition no_outcome :: outcome where
  "no_outcome = \<lparr>text_of = [], tree = create_type_help_vertex tp_Unknown, unknown = [], reported = []\<rparr>"

definition union_outcome :: "(outcome \<times> nat) list \<Rightarrow> outcome" where
  "union_outcome ms =
     (case map member_outcome ms of [] \<Rightarrow> no_outcome | m # ms' \<Rightarrow> union_of m ms')"

definition paren_outcome :: "outcome \<Rightarrow> outcome" where
  "paren_outcome u = u\<lparr>text_of := ''('' @ text_of u @ '')''\<rparr>"

definition nested_outcome :: "string \<times> PrimitiveType \<Rightarrow> char \<Rightarrow> char \<Rightarrow> outcome list \<Rightarrow> outcome" where
  "nested_outcome k ob cb us =
     \<lparr>text_of = fst k @ ob #
        (case us of [] \<Rightarrow> [] | u # us' \<Rightarrow> text_of u @ concat (map (\<lambda>u. CHR '','' # text_of u) us'))
        @ [cb],
      tree = op_type_expr_type (snd k) (map tree us),
      unknown = concat (map unknown us),
      reported = concat (map reported us)\<rparr>"

primrec expected :: "env \<Rightarrow> simple \<Rightarrow> outcome" where
  "expected e (Atom a) =
     \<lparr>text_of = atom_text a, tree = atom_vertex e a, unknown = atom_unknown e a,
      reported = atom_diags e a\<rparr>"
| "expected e (Paren ms) = paren_outcome (union_outcome (map (map_prod (expected e) id) ms))"
| "expected e (Nested k ob cb args) =
     nested_outcome k ob cb (map union_outcome (map (map (map_prod (expected e) id)) args))"

text \<open>
  Well-formed syntax: the atoms are well formed, the unions are not empty, the brackets are
  brackets.
\<close>

primrec simple_ok :: "env \<Rightarrow> simple \<Rightarrow> bool" where
  "simple_ok e (Atom a) = atom_ok e a"
| "simple_ok e (Paren ms) = (ms \<noteq> [] \<and> list_all fst (map (map_prod (simple_ok e) id) ms))"
| "simple_ok e (Nested k ob cb args) =
     (k \<in> set nested_keywords \<and> (ob = CHR ''<'' \<or> ob = CHR ''('')
      \<and> (cb = CHR ''>'' \<or> cb = CHR '')'') \<and> args \<noteq> []
      \<and> list_all (\<lambda>u. u \<noteq> [] \<and> list_all fst u) (map (map (map_prod (simple_ok e) id)) args))"

definition union_ok :: "env \<Rightarrow> (simple \<times> nat) list \<Rightarrow> bool" where
  "union_ok e ms = (ms \<noteq> [] \<and> list_all (\<lambda>m. simple_ok e (fst m)) ms)"

definition expected_union :: "env \<Rightarrow> (simple \<times> nat) list \<Rightarrow> outcome" where
  "expected_union e ms = union_outcome (map (map_prod (expected e) id) ms)"

definition member_text :: "env \<Rightarrow> simple \<times> nat \<Rightarrow> string" where
  "member_text e m = text_of (expected e (fst m)) @ concat (replicate (snd m) ''[]'')"

definition member_tree :: "env \<Rightarrow> simple \<times> nat \<Rightarrow> vertex" where
  "member_tree e m = (array_of ^^ snd m) (tree (expected e (fst m)))"

text \<open>
  The state after a piece of text: the position has moved by its length, the unknown classes
  and the diagnostics are appended. And what may follow a name, a member and a union
  without being taken for a part of it.
\<close>

definition advance :: "nat \<Rightarrow> string list \<Rightarrow> diagnostic list \<Rightarrow> pstate \<Rightarrow> pstate" where
  "advance n us ds st =
     st\<lparr>pos := pos st + n, unknown_classes_list := unknown_classes_list st @ us,
        diags := diags st @ ds\<rparr>"

definition follows_name :: "string \<Rightarrow> bool" where
  "follows_name rest = (case rest of [] \<Rightarrow> True | c # _ \<Rightarrow> \<not> classname_char c)"

definition follows_member :: "string \<Rightarrow> bool" where
  "follows_member rest =
     (case rest of [] \<Rightarrow> True | c # _ \<Rightarrow> \<not> classname_char c \<and> c \<noteq> CHR ''['')"

definition follows_union :: "string \<Rightarrow> bool" where
  "follows_union rest =
     (case rest of [] \<Rightarrow> True
      | c # _ \<Rightarrow> \<not> classname_char c \<and> c \<noteq> CHR ''['' \<and> c \<noteq> CHR ''|'')"

text \<open>
  A simple type, a member, a union parses when the parser at its text, in any string and
  state, yields its outcome.
\<close>

definition parses_simple :: "env \<Rightarrow> outcome \<Rightarrow> bool" where
  "parses_simple e x =
     (\<forall>s st rest. drop (pos st) s = text_of x @ rest \<longrightarrow> follows_name rest \<longrightarrow>
        parse_simple_type e s st =
          (Some (tree x), advance (length (text_of x)) (unknown x) (reported x) st))"

definition parses_member :: "env \<Rightarrow> outcome \<Rightarrow> bool" where
  "parses_member e x =
     (\<forall>s st rest. drop (pos st) s = text_of x @ rest \<longrightarrow> follows_member rest \<longrightarrow>
        parse_type_array e s st =
          (Some (tree x), advance (length (text_of x)) (unknown x) (reported x) st))"

definition parses_union :: "env \<Rightarrow> outcome \<Rightarrow> bool" where
  "parses_union e x =
     (\<forall>s st rest. drop (pos st) s = text_of x @ rest \<longrightarrow> follows_union rest \<longrightarrow>
        parse_type_expression e s st =
          (Some (tree x), advance (length (text_of x)) (unknown x) (reported x) st))"

subsection \<open>Resolution contexts for the examples\<close>

text \<open>
  No class is registered, and names resolve to themselves.
\<close>

definition no_classes :: env where
  "no_classes =
     \<lparr>resolve_uses = (\<lambda>n. n), get_class = (\<lambda>n. None), tl_namespace_prefix = [],
      current_class_id = None\<rparr>"

text \<open>
  One class is registered, the trait \<^verbatim>\<open>T\<close>.
\<close>

definition one_trait :: env where
  "one_trait =
     \<lparr>resolve_uses = (\<lambda>n. n),
      get_class = (\<lambda>n. if n = ''T'' then Some \<lparr>get_name = ''T'', is_trait = True\<rparr> else None),
      tl_namespace_prefix = [], current_class_id = None\<rparr>"

subsection \<open>Lines and markers of a comment body\<close>

text \<open>
  The lines of a comment body are what lies between its newline characters. A line has its
  marker first when its first character other than space and tab is \<^verbatim>\<open>*\<close>; it has no
  stray text when it has its marker first or holds spaces and tabs only. A body is well marked
  when every line but the last has its marker first and the last line has no stray text;
  the flag says that the marker of the first line was seen already.
\<close>

definition blank_char :: "char \<Rightarrow> bool" where
  "blank_char c = (c = chr_space \<or> c = chr_tab)"

fun split_lines :: "string \<Rightarrow> string list" where
  "split_lines [] = [[]]"
| "split_lines (c # cs) =
     (if c = chr_newline then [] # split_lines cs
      else (case split_lines cs of [] \<Rightarrow> [[c]] | l # ls \<Rightarrow> (c # l) # ls))"

definition marker_first :: "string \<Rightarrow> bool" where
  "marker_first l = (case dropWhile blank_char l of [] \<Rightarrow> False | c # _ \<Rightarrow> c = CHR ''*'')"

definition no_stray_text :: "string \<Rightarrow> bool" where
  "no_stray_text l = (list_all blank_char l \<or> marker_first l)"

fun well_marked :: "bool \<Rightarrow> string list \<Rightarrow> bool" where
  "well_marked have_star [] = True"
| "well_marked have_star [l] = (have_star \<or> list_all blank_char l \<or> marker_first l)"
| "well_marked have_star (l # ls) = ((have_star \<or> marker_first l) \<and> well_marked False ls)"

subsection \<open>Line numbers\<close>

text \<open>
  The line computed for line \<open>i\<close> of \<open>n\<close> lines, and a comment of three lines.
\<close>

definition line_of :: "int \<Rightarrow> nat \<Rightarrow> nat \<Rightarrow> int" where
  "line_of decl n i = min (decl - (int n - int i)) (decl - 2)"

definition three_lines :: string where
  "three_lines = ''* @param int $a'' @ [chr_newline] @ ''* continued'' @ [chr_newline] @ ''* @return int''"

(*SPECDEFS*)

section \<open>The parsers terminate\<close>

text \<open>
  No parser moves the position backwards. This is what makes the two loops that call a
  parser and go on from where it stopped terminate.
\<close>

lemma fail_pos [simp]: "pos (snd (fail y st)) = pos st"
  by (simp add: fail_def kphp_error_def)

lemma kphp_error_pos [simp]: "pos (kphp_error x y st) = pos st"
  by (simp add: kphp_error_def)

lemma keyword_pos [simp]: "pos (snd (keyword v n st)) = pos st + n"
  by (simp add: keyword_def)

lemma unknown_type_name_pos [simp]: "pos (snd (unknown_type_name s st)) = pos st"
  by (simp add: unknown_type_name_def)

lemma parse_class_name_pos: "pos st \<le> pos (snd (parse_class_name e s st))"
  by (simp add: parse_class_name_def Let_def split: option.split)

lemma array_suffixes_pos: "pos st \<le> pos (snd (array_suffixes s res st))"
proof (induction s res st rule: array_suffixes.induct)
  case (1 s res st)
  show ?case
  proof (cases "pos st < length s \<and> s ! pos st = CHR ''[''
      \<and> pos st + 1 < length s \<and> s ! (pos st + 1) = CHR '']''")
    case True
    with 1 have "pos (st\<lparr>pos := pos st + 2\<rparr>)
        \<le> pos (snd (array_suffixes s (op_type_expr_type tp_array [res]) (st\<lparr>pos := pos st + 2\<rparr>)))"
      by blast
    with True show ?thesis by (subst array_suffixes.simps) simp
  next
    case False
    then show ?thesis by (subst array_suffixes.simps) auto
  qed
qed

lemma parse_dom_pos:
  "parse_dom (Inl (Inl (e, s, st))) \<Longrightarrow> pos st \<le> pos (snd (parse_simple_type e s st))"
  "parse_dom (Inl (Inr (Inl (e, s, st)))) \<Longrightarrow> pos st \<le> pos (snd (parse_type_array e s st))"
  "parse_dom (Inl (Inr (Inr (e, s, th, st)))) \<Longrightarrow>
     pos st \<le> pos (snd (parse_nested_type_rule e s th st))"
  "parse_dom (Inr (Inl (e, s, subs, st))) \<Longrightarrow> pos st \<le> pos (snd (nested_sub_types e s subs st))"
  "parse_dom (Inr (Inr (Inl (e, s, st)))) \<Longrightarrow> pos st \<le> pos (snd (parse_type_expression e s st))"
  "parse_dom (Inr (Inr (Inr (e, s, res, hb, st)))) \<Longrightarrow>
     pos st \<le> pos (snd (union_members e s res hb st))"
proof (induct rule: parse_simple_type_parse_type_array_parse_nested_type_rule_nested_sub_types_parse_type_expression_union_members.pinduct)
  case (1 e s st)
  have paren: "pos st \<le> pos (snd (case r of (None, st1) \<Rightarrow> (None, st1)
        | (Some v, st1) \<Rightarrow>
            if \<not> (pos st1 < length s \<and> s ! pos st1 = CHR '')'')
            then fail UnmatchingParens st1
            else (Some v, st1\<lparr>pos := pos st1 + 1\<rparr>)))" if "pos st + 1 \<le> pos (snd r)" for r
    using that by (auto split: prod.splits option.splits)
  note nested = 1(3-) [simplified, THEN add_leD1]
  note inner = 1(2) [simplified]
  show ?case
    by (subst parse_simple_type.psimps [OF 1(1)])
      (simp split: if_split add: paren nested inner parse_class_name_pos)
next
  case (2 e s st)
  show ?case
    using 2(2-) array_suffixes_pos
    by (subst parse_type_array.psimps [OF 2(1)])
      (auto split: prod.splits option.splits intro: order_trans)
next
  case (3 e s th st)
  show ?case
    using 3(2-)
    by (subst parse_nested_type_rule.psimps [OF 3(1)]) (auto split: prod.splits option.splits)
next
  case (4 e s subs st)
  show ?case
    using 4(2-)
    by (subst nested_sub_types.psimps [OF 4(1)]) (auto split: prod.splits option.splits)
next
  case (5 e s st)
  show ?case
    using 5(2-)
    by (subst parse_type_expression.psimps [OF 5(1)])
      (auto split: prod.splits option.splits vertex.splits)
next
  case (6 e s res hb st)
  show ?case
    using 6(2-)
    by (subst union_members.psimps [OF 6(1)]) (auto split: prod.splits option.splits)
qed

lemma parse_type_expression_dom_pos:
  "(v, y) = parse_type_expression e s st \<Longrightarrow> parse_dom (Inr (Inr (Inl (e, s, st))))
    \<Longrightarrow> pos st \<le> pos y"
  using parse_dom_pos(5) [of e s st] by (cases "parse_type_expression e s st") simp

lemma parse_type_array_dom_pos:
  "(v, y) = parse_type_array e s st \<Longrightarrow> parse_dom (Inl (Inr (Inl (e, s, st))))
    \<Longrightarrow> pos st \<le> pos y"
  using parse_dom_pos(2) [of e s st] by (cases "parse_type_array e s st") simp

termination parse_simple_type
  by (relation "measures [parse_left, parse_rank]")
    (auto simp add: parse_left_def parse_rank_def
      dest: parse_type_expression_dom_pos parse_type_array_dom_pos)

declare parse_simple_type.simps [simp del] parse_type_array.simps [simp del]
  parse_nested_type_rule.simps [simp del] nested_sub_types.simps [simp del]
  parse_type_expression.simps [simp del] union_members.simps [simp del]

section \<open>Parsing the type strings of the grammar\<close>

subsection \<open>Atoms and array suffixes\<close>

lemma nth_of_drop: "drop p s = c # r \<Longrightarrow> p < length s \<and> s ! p = c"
  by (metis Cons_nth_drop_Suc drop_all list.discI list.inject not_less nth_via_drop)

lemma simple_type_head:
  assumes "drop (pos st) s = c # r"
  shows "pos st < length s" "s ! pos st = c" "substr s (pos st) n = take n (c # r)"
  using nth_of_drop [OF assms] by (simp_all add: substr_def assms)

lemma not_integer:
  "follows_name rest \<Longrightarrow> take 4 rest \<noteq> ''eger''"
  by (cases rest) (auto simp: follows_name_def classname_char_def isalnum_def is_lower_def)

lemma not_boolean:
  "follows_name rest \<Longrightarrow> take 3 rest \<noteq> ''ean''"
  by (cases rest) (auto simp: follows_name_def classname_char_def isalnum_def is_lower_def)

lemma keywords_in_context:
  "list_all (\<lambda>(k, v). \<forall>s st rest. drop (pos st) s = k @ rest \<longrightarrow>
      take 4 rest \<noteq> ''eger'' \<longrightarrow> take 3 rest \<noteq> ''ean'' \<longrightarrow>
      parse_simple_type e s st = (Some v, st\<lparr>pos := pos st + length k\<rparr>))
    (primitive_keywords e)"
  unfolding primitive_keywords_def list.pred_inject prod.case
  apply (intro conjI allI impI TrueI)
  apply (subst parse_simple_type.simps, simp add: simple_type_head keyword_def)+
  done

lemma keyword_in_context:
  assumes k: "(k, v) \<in> set (primitive_keywords e)"
    and s: "drop (pos st) s = k @ rest"
    and rest: "follows_name rest"
  shows "parse_simple_type e s st = (Some v, st\<lparr>pos := pos st + length k\<rparr>)"
  using keywords_in_context [of e] k s not_integer [OF rest] not_boolean [OF rest]
  unfolding list_all_iff by blast

lemma advance_simps [simp]:
  "pos (advance n us ds st) = pos st + n"
  "unknown_classes_list (advance n us ds st) = unknown_classes_list st @ us"
  "diags (advance n us ds st) = diags st @ ds"
  "advance n us ds (advance n' us' ds' st) = advance (n' + n) (us' @ us) (ds' @ ds) st"
  "advance 0 [] [] st = st"
  "(advance n us ds st)\<lparr>pos := p\<rparr> = advance 0 us ds (st\<lparr>pos := p\<rparr>)"
  by (simp_all add: advance_def)

lemma upper_is_no_case:
  assumes "is_upper c"
  shows "c \<noteq> CHR ''(''" "c \<noteq> CHR ''s''" "c \<noteq> CHR ''i''" "c \<noteq> CHR ''b''" "c \<noteq> CHR ''f''"
    "c \<noteq> CHR ''d''" "c \<noteq> CHR ''m''" "c \<noteq> CHR ''n''" "c \<noteq> CHR ''t''" "c \<noteq> CHR ''a''"
    "c \<noteq> CHR ''v''" "c \<noteq> chr_backslash" "c \<noteq> CHR ''@''"
  using assms by (auto simp: is_upper_def chr_backslash_def)

lemma takeWhile_name:
  "list_all P c \<Longrightarrow> (case rest of [] \<Rightarrow> True | x # _ \<Rightarrow> \<not> P x) \<Longrightarrow> takeWhile P (c @ rest) = c"
  by (induction c) (auto split: list.splits simp: takeWhile_eq_Nil_iff)

lemma classname_in_context:
  assumes c: "c \<noteq> []" "is_upper (hd c)" "list_all classname_char c"
    and s: "drop (pos st) s = c @ rest"
    and rest: "follows_name rest"
  shows "parse_simple_type e s st =
    (Some (atom_vertex e (ClassName c)),
     advance (length c) (atom_unknown e (ClassName c)) (atom_diags e (ClassName c)) st)"
proof -
  from c(1) obtain x xs where x: "c = x # xs" by (cases c) auto
  with s have d: "drop (pos st) s = x # xs @ rest" by simp
  note h = simple_type_head [OF d]
  from c(2) x have up: "is_upper x" by simp
  have ex: "extract_classname_from_pos s (pos st) = c"
    using takeWhile_name [OF c(3), of rest] rest
    by (simp add: extract_classname_from_pos_def s classname_char_def [abs_def] follows_name_def)
  have "parse_simple_type e s st = parse_class_name e s st"
    by (subst parse_simple_type.simps) (simp add: h upper_is_no_case [OF up])
  also have "\<dots> = (Some (atom_vertex e (ClassName c)),
     advance (length c) (atom_unknown e (ClassName c)) (atom_diags e (ClassName c)) st)"
    using up
    by (simp add: parse_class_name_def h ex starts_with_def d upper_is_no_case [OF up]
        kphp_error_def advance_def split: option.split)
  finally show ?thesis .
qed

lemma keywords_distinct: "distinct (map fst (primitive_keywords e))"
  by (simp add: primitive_keywords_def)

lemma atom_in_context:
  assumes a: "atom_ok e a"
    and s: "drop (pos st) s = atom_text a @ rest"
    and rest: "follows_name rest"
  shows "parse_simple_type e s st =
    (Some (atom_vertex e a), advance (length (atom_text a)) (atom_unknown e a) (atom_diags e a) st)"
proof (cases a)
  case (Keyword k)
  with a obtain v where v: "(k, v) \<in> set (primitive_keywords e)" by auto
  then have "map_of (primitive_keywords e) k = Some v"
    using keywords_distinct by simp
  with keyword_in_context [OF v, of st s rest] s rest Keyword show ?thesis
    by (simp add: advance_def)
next
  case (ClassName c)
  with a s rest classname_in_context [of c st s rest e] show ?thesis by simp
qed

lemma drop_past: "drop p s = xs @ r \<Longrightarrow> drop (p + length xs) s = r"
  by (metis add.commute append_eq_conv_conj drop_drop)

lemma array_suffixes_in_context:
  "drop (pos st) s = concat (replicate n ''[]'') @ rest
    \<Longrightarrow> (case rest of [] \<Rightarrow> True | c # _ \<Rightarrow> c \<noteq> CHR ''['')
    \<Longrightarrow> array_suffixes s v st = (Some ((array_of ^^ n) v), advance (2 * n) [] [] st)"
proof (induction n arbitrary: v st)
  case 0
  show ?case
  proof (cases rest)
    case Nil
    with 0 have "\<not> pos st < length s" by simp
    then show ?thesis by (subst array_suffixes.simps) simp
  next
    case (Cons c r)
    with 0 have "s ! pos st = c" "c \<noteq> CHR ''[''"
      using nth_of_drop [of "pos st" s c r] by auto
    then show ?thesis by (subst array_suffixes.simps) simp
  qed
next
  case (Suc n)
  let ?r = "concat (replicate n ''[]'') @ rest"
  from Suc.prems(1) have d: "drop (pos st) s = CHR ''['' # CHR '']'' # ?r" by simp
  from nth_of_drop [OF d] have 1: "pos st < length s" "s ! pos st = CHR ''[''" by auto
  from drop_past [of "pos st" s "''[''" "CHR '']'' # ?r"] d
  have "drop (pos st + 1) s = CHR '']'' # ?r" by simp
  from nth_of_drop [OF this] have 2: "pos st + 1 < length s" "s ! (pos st + 1) = CHR '']''"
    by auto
  from drop_past [of "pos st" s "''[]''" ?r] d
  have 3: "drop (pos (st\<lparr>pos := pos st + 2\<rparr>)) s = ?r" by simp
  have "array_suffixes s v st = array_suffixes s (array_of v) (st\<lparr>pos := pos st + 2\<rparr>)"
    using 1 2 by (subst array_suffixes.simps) (simp add: array_of_def)
  also have "\<dots> = (Some ((array_of ^^ n) (array_of v)), advance (2 * n) [] [] (st\<lparr>pos := pos st + 2\<rparr>))"
    by (rule Suc.IH [OF 3 Suc.prems(2)])
  finally show ?case by (simp add: funpow_swap1 advance_def)
qed

subsection \<open>Members and unions\<close>

lemma follows_member_name:
  "follows_member rest \<Longrightarrow> follows_name (concat (replicate n ''[]'') @ rest)"
  by (cases n)
    (auto simp: follows_name_def follows_member_def classname_char_def isalnum_def
      is_digit_def is_upper_def is_lower_def chr_backslash_def split: list.splits)

lemma member_parses:
  assumes "parses_simple e x"
  shows "parses_member e (member_outcome (x, n))"
  unfolding parses_member_def
proof (intro allI impI)
  fix s :: string and st :: pstate and rest :: string
  let ?suf = "concat (replicate n ''[]'')"
  let ?st1 = "advance (length (text_of x)) (unknown x) (reported x) st"
  assume d: "drop (pos st) s = text_of (member_outcome (x, n)) @ rest"
    and rest: "follows_member rest"
  from d have d1: "drop (pos st) s = text_of x @ (?suf @ rest)"
    by (simp add: member_outcome_def)
  from assms d1 follows_member_name [OF rest]
  have 1: "parse_simple_type e s st = (Some (tree x), ?st1)"
    unfolding parses_simple_def by blast
  from drop_past [OF d1] have "drop (pos ?st1) s = ?suf @ rest" by simp
  from array_suffixes_in_context [OF this, of "tree x"] rest
  have "array_suffixes s (tree x) ?st1 = (Some ((array_of ^^ n) (tree x)), advance (2 * n) [] [] ?st1)"
    by (auto simp: follows_member_def split: list.splits)
  with 1 show "parse_type_array e s st =
      (Some (tree (member_outcome (x, n))),
       advance (length (text_of (member_outcome (x, n)))) (unknown (member_outcome (x, n)))
         (reported (member_outcome (x, n))) st)"
    by (subst parse_type_array.simps)
      (simp add: member_outcome_def length_concat sum_list_replicate)
qed

lemma follows_union_members:
  "follows_union rest \<Longrightarrow> follows_member (concat (map (\<lambda>m. CHR ''|'' # text_of m) ms) @ rest)"
  by (cases ms)
    (auto simp: follows_union_def follows_member_def classname_char_def
      isalnum_def is_digit_def is_upper_def is_lower_def chr_backslash_def split: list.splits)

lemma union_members_step:
  "pos st < length s \<Longrightarrow> s ! pos st = CHR ''|''
    \<Longrightarrow> parse_type_array e s (st\<lparr>pos := pos st + 1\<rparr>) = (Some next, st1)
    \<Longrightarrow> union_members e s res hb st =
        union_members e s (op_type_expr_lca res next)
          (hb \<or> substr s (pos st + 1) (pos st1 - (pos st + 1)) = ''bool'') st1"
  by (subst union_members.simps) simp

lemma union_members_parse:
  "list_all (parses_member e) ms
    \<Longrightarrow> drop (pos st) s = concat (map (\<lambda>m. CHR ''|'' # text_of m) ms) @ rest
    \<Longrightarrow> follows_union rest
    \<Longrightarrow> union_members e s res hb st =
        (Some (foldl op_type_expr_lca res (map tree ms),
               hb \<or> list_ex (\<lambda>m. text_of m = ''bool'') ms),
         advance (length (concat (map (\<lambda>m. CHR ''|'' # text_of m) ms)))
           (concat (map unknown ms)) (concat (map reported ms)) st)"
proof (induction ms arbitrary: res hb st)
  case Nil
  show ?case
  proof (cases rest)
    case Nil
    with Nil.prems have "\<not> pos st < length s" by simp
    then show ?thesis by (subst union_members.simps) simp
  next
    case (Cons c r)
    with Nil.prems have "s ! pos st = c" "c \<noteq> CHR ''|''"
      using nth_of_drop [of "pos st" s c r] by (auto simp: follows_union_def)
    then show ?thesis by (subst union_members.simps) simp
  qed
next
  case (Cons m ms)
  let ?rest = "concat (map (\<lambda>m. CHR ''|'' # text_of m) ms) @ rest"
  let ?st0 = "st\<lparr>pos := pos st + 1\<rparr>"
  let ?st1 = "advance (length (text_of m)) (unknown m) (reported m) ?st0"
  from Cons.prems(2) have d: "drop (pos st) s = CHR ''|'' # text_of m @ ?rest" by simp
  from nth_of_drop [OF d] have bar: "pos st < length s" "s ! pos st = CHR ''|''" by auto
  from drop_past [of "pos st" s "''|''" "text_of m @ ?rest"] d
  have d0: "drop (pos ?st0) s = text_of m @ ?rest" by simp
  from Cons.prems(1) have ok: "parses_member e m" "list_all (parses_member e) ms"
    by simp_all
  from ok(1) d0 follows_union_members [OF Cons.prems(3)]
  have 1: "parse_type_array e s ?st0 = (Some (tree m), ?st1)"
    unfolding parses_member_def by blast
  from d0 have sub: "(substr s (pos st + 1) (pos ?st1 - (pos st + 1)) = ''bool'') = (text_of m = ''bool'')"
    by (simp add: substr_def)
  from drop_past [OF d0] have d1: "drop (pos ?st1) s = ?rest" by simp
  have "union_members e s res hb st =
      union_members e s (op_type_expr_lca res (tree m)) (hb \<or> text_of m = ''bool'') ?st1"
    using union_members_step [OF bar 1] unfolding sub .
  also note Cons.IH [OF ok(2) d1 Cons.prems(3)]
  finally show ?case by (simp add: advance_def)
qed

lemma atom_parses: "atom_ok e a \<Longrightarrow> parses_simple e (expected e (Atom a))"
  unfolding parses_simple_def by (simp add: atom_in_context)

lemma bool_member:
  assumes "parses_member e m" and "text_of m = ''bool''"
  shows "tree m = create_type_help_vertex tp_bool"
proof -
  let ?b = "member_outcome (expected e (Atom (Keyword ''bool'')), 0)"
  have "atom_ok e (Keyword ''bool'')" by (simp add: primitive_keywords_def)
  from member_parses [OF atom_parses [OF this], of 0]
  have "parses_member e ?b" .
  moreover have "drop (pos new_parser) ''bool'' = text_of ?b @ []"
    by (simp add: new_parser_def member_outcome_def)
  moreover have "follows_member []" by (simp add: follows_member_def)
  ultimately have "parse_type_array e ''bool'' new_parser =
      (Some (tree ?b), advance (length (text_of ?b)) (unknown ?b) (reported ?b) new_parser)"
    unfolding parses_member_def by blast
  moreover from assms have "parse_type_array e ''bool'' new_parser =
      (Some (tree m), advance (length (text_of m)) (unknown m) (reported m) new_parser)"
    unfolding parses_member_def by (simp add: new_parser_def follows_member_def)
  ultimately show ?thesis
    by (simp add: member_outcome_def primitive_keywords_def)
qed

lemma foldl_lca: "ms \<noteq> [] \<Longrightarrow> \<exists>l r. foldl op_type_expr_lca v ms = op_type_expr_lca l r"
  by (induction ms rule: rev_induct) auto

lemma parse_type_expression_steps:
  "parse_type_array e s st = (Some v, st1)
    \<Longrightarrow> union_members e s v (substr s (pos st) (pos st1 - pos st) = ''bool'') st1
          = (Some (res', hb), st2)
    \<Longrightarrow> parse_type_expression e s st =
        (case res' of
           op_type_expr_lca l r \<Rightarrow> (Some res', kphp_error (\<not> hb) BoolInUnion st2)
         | _ \<Rightarrow> (Some res', st2))"
  by (subst parse_type_expression.simps) simp

lemma union_parses:
  assumes m: "parses_member e m" and ms: "list_all (parses_member e) ms"
  shows "parses_union e (union_of m ms)"
  unfolding parses_union_def
proof (intro allI impI)
  fix s :: string and st :: pstate and rest :: string
  let ?u = "union_of m ms"
  let ?tail = "concat (map (\<lambda>m. CHR ''|'' # text_of m) ms)"
  let ?rest = "?tail @ rest"
  let ?st1 = "advance (length (text_of m)) (unknown m) (reported m) st"
  let ?st2 = "advance (length ?tail) (concat (map unknown ms)) (concat (map reported ms)) ?st1"
  let ?hb = "text_of m = ''bool'' \<or> list_ex (\<lambda>m. text_of m = ''bool'') ms"
  assume "drop (pos st) s = text_of ?u @ rest" and rest: "follows_union rest"
  then have d: "drop (pos st) s = text_of m @ ?rest" by (simp add: union_of_def)
  from m d follows_union_members [OF rest]
  have 1: "parse_type_array e s st = (Some (tree m), ?st1)"
    unfolding parses_member_def by blast
  from d have sub: "(substr s (pos st) (pos ?st1 - pos st) = ''bool'') = (text_of m = ''bool'')"
    by (simp add: substr_def)
  from drop_past [OF d] have d1: "drop (pos ?st1) s = ?rest" by simp
  have 2: "union_members e s (tree m) (substr s (pos st) (pos ?st1 - pos st) = ''bool'') ?st1 =
      (Some (tree ?u, ?hb), ?st2)"
    unfolding sub using union_members_parse [OF ms d1 rest, of "tree m" "text_of m = ''bool''"]
    by (simp add: union_of_def)
  note 3 = parse_type_expression_steps [OF 1 2]
  have st2: "?st2 = advance (length (text_of ?u)) (unknown ?u) (concat (map reported (m # ms))) st"
    by (simp add: union_of_def)
  show "parse_type_expression e s st =
      (Some (tree ?u), advance (length (text_of ?u)) (unknown ?u) (reported ?u) st)"
  proof (cases ms)
    case Nil
    then have u: "tree ?u = tree m" "reported ?u = concat (map reported (m # ms))"
      by (simp_all add: union_of_def)
    show ?thesis
    proof (cases "text_of m = ''bool''")
      case True
      from bool_member [OF m True] 3 Nil show ?thesis
        unfolding st2 u by (simp add: create_type_help_vertex_def)
    next
      case False
      with 3 Nil show ?thesis
        unfolding st2 u by (simp add: kphp_error_def split: vertex.split)
    qed
  next
    case (Cons m' ms')
    then obtain l r where lca: "tree ?u = op_type_expr_lca l r"
      using foldl_lca [of "map tree ms" "tree m"] by (auto simp: union_of_def)
    from 3 Cons show ?thesis
      unfolding st2 lca by (simp add: union_of_def kphp_error_def advance_def)
  qed
qed

subsection \<open>Parentheses and parameterized types\<close>

lemma paren_step:
  "pos st < length s \<Longrightarrow> s ! pos st = CHR ''(''
    \<Longrightarrow> parse_type_expression e s (st\<lparr>pos := pos st + 1\<rparr>) = (Some v, st1)
    \<Longrightarrow> pos st1 < length s \<Longrightarrow> s ! pos st1 = CHR '')''
    \<Longrightarrow> parse_simple_type e s st = (Some v, st1\<lparr>pos := pos st1 + 1\<rparr>)"
  by (subst parse_simple_type.simps) simp

lemma follows_union_closing:
  "c = CHR '','' \<or> c = CHR ''>'' \<or> c = CHR '')'' \<Longrightarrow> follows_union (c # r)"
  by (auto simp: follows_union_def classname_char_def isalnum_def is_digit_def is_upper_def
      is_lower_def chr_backslash_def)

lemma paren_parses:
  assumes "parses_union e u"
  shows "parses_simple e (paren_outcome u)"
  unfolding parses_simple_def
proof (intro allI impI)
  fix s :: string and st :: pstate and rest :: string
  let ?st0 = "st\<lparr>pos := pos st + 1\<rparr>"
  let ?st1 = "advance (length (text_of u)) (unknown u) (reported u) ?st0"
  assume "drop (pos st) s = text_of (paren_outcome u) @ rest"
  then have d: "drop (pos st) s = CHR ''('' # text_of u @ CHR '')'' # rest"
    by (simp add: paren_outcome_def)
  from nth_of_drop [OF d] have 1: "pos st < length s" "s ! pos st = CHR ''(''" by auto
  from drop_past [of "pos st" s "''(''" "text_of u @ CHR '')'' # rest"] d
  have d0: "drop (pos ?st0) s = text_of u @ CHR '')'' # rest" by simp
  have "follows_union (CHR '')'' # rest)" by (simp add: follows_union_closing)
  with assms d0 have 2: "parse_type_expression e s ?st0 = (Some (tree u), ?st1)"
    unfolding parses_union_def by blast
  from drop_past [OF d0] have "drop (pos ?st1) s = CHR '')'' # rest" by simp
  from nth_of_drop [OF this] have 3: "pos ?st1 < length s" "s ! pos ?st1 = CHR '')''" by auto
  from paren_step [OF 1 2 3]
  show "parse_simple_type e s st =
      (Some (tree (paren_outcome u)),
       advance (length (text_of (paren_outcome u))) (unknown (paren_outcome u))
         (reported (paren_outcome u)) st)"
    by (simp add: paren_outcome_def advance_def)
qed

lemma nested_sub_types_step:
  assumes "parse_type_expression e s st = (Some v, st1)" and "pos st1 < length s"
  shows "nested_sub_types e s subs st =
    (if s ! pos st1 = CHR ''>'' \<or> s ! pos st1 = CHR '')''
     then (Some (subs @ [v]), st1\<lparr>pos := pos st1 + 1\<rparr>)
     else if s ! pos st1 = CHR '',''
     then nested_sub_types e s (subs @ [v]) (st1\<lparr>pos := pos st1 + 1\<rparr>)
     else (None, kphp_error False ExpectedComma st1))"
  using assms by (subst nested_sub_types.simps) simp

lemma nested_sub_types_parse:
  "list_all (parses_union e) (u # us)
    \<Longrightarrow> drop (pos st) s = text_of u @ concat (map (\<lambda>u. CHR '','' # text_of u) us) @ c # rest
    \<Longrightarrow> c = CHR ''>'' \<or> c = CHR '')''
    \<Longrightarrow> nested_sub_types e s subs st =
        (Some (subs @ map tree (u # us)),
         advance (length (text_of u @ concat (map (\<lambda>u. CHR '','' # text_of u) us)) + 1)
           (concat (map unknown (u # us))) (concat (map reported (u # us))) st)"
proof (induction us arbitrary: u subs st)
  case Nil
  let ?st1 = "advance (length (text_of u)) (unknown u) (reported u) st"
  from Nil.prems(2) have d: "drop (pos st) s = text_of u @ c # rest" by simp
  from Nil.prems(3) have "follows_union (c # rest)" by (auto intro: follows_union_closing)
  with Nil.prems(1) d have 1: "parse_type_expression e s st = (Some (tree u), ?st1)"
    unfolding parses_union_def by simp
  from drop_past [OF d] have "drop (pos ?st1) s = c # rest" by simp
  from nth_of_drop [OF this] have 2: "pos ?st1 < length s" "s ! pos ?st1 = c" by auto
  from nested_sub_types_step [OF 1 2(1), of subs] 2(2) Nil.prems(3)
  show ?case by (auto simp add: advance_def)
next
  case (Cons u' us)
  let ?tail = "text_of u' @ concat (map (\<lambda>u. CHR '','' # text_of u) us) @ c # rest"
  let ?st1 = "advance (length (text_of u)) (unknown u) (reported u) st"
  let ?st2 = "?st1\<lparr>pos := pos ?st1 + 1\<rparr>"
  from Cons.prems(2) have d: "drop (pos st) s = text_of u @ CHR '','' # ?tail" by simp
  from Cons.prems(1) have ok: "parses_union e u" and ok': "list_all (parses_union e) (u' # us)"
    by simp_all
  have "follows_union (CHR '','' # ?tail)" by (simp add: follows_union_closing)
  with ok d have 1: "parse_type_expression e s st = (Some (tree u), ?st1)"
    unfolding parses_union_def by blast
  from drop_past [OF d] have d1: "drop (pos ?st1) s = CHR '','' # ?tail" by simp
  from nth_of_drop [OF d1] have 2: "pos ?st1 < length s" "s ! pos ?st1 = CHR '',''" by auto
  from drop_past [of "pos ?st1" s "'',''" ?tail] d1
  have d2: "drop (pos ?st2) s = ?tail" by simp
  from nested_sub_types_step [OF 1 2(1), of subs] 2(2)
  have "nested_sub_types e s subs st = nested_sub_types e s (subs @ [tree u]) ?st2"
    by simp
  also note Cons.IH [OF ok' d2 Cons.prems(3)]
  finally show ?case by (simp add: advance_def)
qed

lemma nested_keywords_dispatch:
  "list_all (\<lambda>(kw, th). \<forall>s st r. drop (pos st) s = kw @ r \<longrightarrow>
      parse_simple_type e s st = parse_nested_type_rule e s th (st\<lparr>pos := pos st + length kw\<rparr>))
    nested_keywords"
  unfolding nested_keywords_def list.pred_inject prod.case
  apply (intro conjI allI impI TrueI)
  apply (subst parse_simple_type.simps, simp add: simple_type_head chr_backslash_def eval_nat_numeral)+
  done

lemma nested_parses:
  assumes k: "k \<in> set nested_keywords"
    and ob: "ob = CHR ''<'' \<or> ob = CHR ''(''"
    and cb: "cb = CHR ''>'' \<or> cb = CHR '')''"
    and us: "us \<noteq> []" "list_all (parses_union e) us"
  shows "parses_simple e (nested_outcome k ob cb us)"
  unfolding parses_simple_def
proof (intro allI impI)
  fix s :: string and st :: pstate and rest :: string
  from us(1) obtain u us' where u: "us = u # us'" by (cases us) auto
  let ?args = "text_of u @ concat (map (\<lambda>u. CHR '','' # text_of u) us')"
  let ?st0 = "st\<lparr>pos := pos st + length (fst k)\<rparr>"
  let ?st1 = "?st0\<lparr>pos := pos ?st0 + 1\<rparr>"
  assume "drop (pos st) s = text_of (nested_outcome k ob cb us) @ rest"
  then have d: "drop (pos st) s = fst k @ ob # ?args @ cb # rest"
    by (simp add: nested_outcome_def u)
  from nested_keywords_dispatch [of e] k d
  have 1: "parse_simple_type e s st = parse_nested_type_rule e s (snd k) ?st0"
    unfolding list_all_iff by (cases k) auto
  from drop_past [OF d] have d0: "drop (pos ?st0) s = ob # ?args @ cb # rest" by simp
  from nth_of_drop [OF d0] ob
  have 2: "pos ?st0 < length s" "s ! pos ?st0 = CHR ''<'' \<or> s ! pos ?st0 = CHR ''(''" by auto
  from drop_past [of "pos ?st0" s "[ob]" "?args @ cb # rest"] d0
  have d1: "drop (pos ?st1) s =
      text_of u @ concat (map (\<lambda>u. CHR '','' # text_of u) us') @ cb # rest" by simp
  from us(2) u have "list_all (parses_union e) (u # us')" by simp
  from nested_sub_types_parse [OF this d1 cb, of "[]"] 2
  have "parse_nested_type_rule e s (snd k) ?st0 =
      (Some (op_type_expr_type (snd k) (map tree (u # us'))),
       advance (length ?args + 1) (concat (map unknown (u # us'))) (concat (map reported (u # us'))) ?st1)"
    by (subst parse_nested_type_rule.simps) simp
  with 1 show "parse_simple_type e s st =
      (Some (tree (nested_outcome k ob cb us)),
       advance (length (text_of (nested_outcome k ob cb us))) (unknown (nested_outcome k ob cb us))
         (reported (nested_outcome k ob cb us)) st)"
    by (simp add: nested_outcome_def u advance_def)
qed

subsection \<open>Every well-formed type string parses to its outcome\<close>

lemma union_outcome_parses:
  assumes "ms \<noteq> []" and "list_all (\<lambda>m. parses_simple e (fst m)) ms"
  shows "parses_union e (union_outcome ms)"
proof -
  from assms(1) obtain m ms' where m: "ms = m # ms'" by (cases ms) auto
  from assms(2) have "list_all (parses_member e) (map member_outcome ms)"
    by (induction ms) (auto simp: member_parses [of e _ _, unfolded prod.collapse] dest: member_parses)
  with m have "parses_member e (member_outcome m)" "list_all (parses_member e) (map member_outcome ms')"
    by simp_all
  from union_parses [OF this] m show ?thesis by (simp add: union_outcome_def)
qed

lemma simple_parses: "simple_ok e x \<Longrightarrow> parses_simple e (expected e x)"
proof (induction x)
  case (Atom a)
  then show ?case by (simp add: atom_parses del: expected.simps)
next
  case (Paren ms)
  have "list_all (\<lambda>m. parses_simple e (fst m)) (map (map_prod (expected e) id) ms)"
    using Paren by (auto simp: list_all_iff)
  moreover from Paren.prems have "map (map_prod (expected e) id) ms \<noteq> []" by simp
  ultimately have "parses_union e (union_outcome (map (map_prod (expected e) id) ms))"
    using union_outcome_parses by blast
  then show ?case by (simp add: paren_parses)
next
  case (Nested k ob cb args)
  have "list_all (parses_union e) (map union_outcome (map (map (map_prod (expected e) id)) args))"
  proof -
    {
      fix u assume u: "u \<in> set args"
      with Nested.prems have ne: "u \<noteq> []" and ok: "\<forall>m\<in>set u. simple_ok e (fst m)"
        by (auto simp: list_all_iff)
      have "list_all (\<lambda>m. parses_simple e (fst m)) (map (map_prod (expected e) id) u)"
        using Nested.IH u ok by (auto simp: list_all_iff)
      with ne have "parses_union e (union_outcome (map (map_prod (expected e) id) u))"
        using union_outcome_parses [of "map (map_prod (expected e) id) u" e] by simp
    }
    then show ?thesis by (simp add: list_all_iff)
  qed
  with Nested.prems show ?case by (simp add: nested_parses)
qed

lemma union_parses_expected: "union_ok e ms \<Longrightarrow> parses_union e (expected_union e ms)"
  unfolding expected_union_def union_ok_def
  by (rule union_outcome_parses) (auto simp: list_all_iff simple_parses)

lemma member_outcome_expected:
  "text_of (member_outcome (map_prod (expected e) id m)) = member_text e m"
  "tree (member_outcome (map_prod (expected e) id m)) = member_tree e m"
  "unknown (member_outcome (map_prod (expected e) id m)) = unknown (expected e (fst m))"
  "reported (member_outcome (map_prod (expected e) id m)) = reported (expected e (fst m))"
  by (cases m; simp add: member_outcome_def member_text_def member_tree_def)+

lemma expected_union_Cons:
  "text_of (expected_union e (m # ms)) =
     member_text e m @ concat (map (\<lambda>m. CHR ''|'' # member_text e m) ms)"
  "tree (expected_union e (m # ms)) =
     foldl op_type_expr_lca (member_tree e m) (map (member_tree e) ms)"
  "unknown (expected_union e (m # ms)) = concat (map (\<lambda>m. unknown (expected e (fst m))) (m # ms))"
  "reported (expected_union e (m # ms)) =
     concat (map (\<lambda>m. reported (expected e (fst m))) (m # ms)) @
     (if ms \<noteq> [] \<and> list_ex (\<lambda>m. member_text e m = ''bool'') (m # ms) then [BoolInUnion] else [])"
  by (simp_all add: expected_union_def union_outcome_def union_of_def member_outcome_expected
      comp_def list_ex_iff)

lemma expected_union_single: "expected_union e [(x, 0)] = expected e x"
  by (cases "expected e x")
    (simp add: expected_union_def union_outcome_def union_of_def member_outcome_def)

lemma parse_from_type_string_steps:
  assumes "parse_type_expression e s (st\<lparr>pos := 0\<rparr>) = (Some v, st1)"
  shows "parse_from_type_string e s st =
    (if drop (pos st1) s = '' ...'' then (Some (op_type_expr_type tp_array [v]), st1\<lparr>pos := length s\<rparr>)
     else if pos st1 = length s then (Some v, st1)
     else (None, st1\<lparr>diags := diags st1 @ [TrailingInput]\<rparr>))"
proof (cases "drop (pos st1) s = '' ...''")
  case True
  then have "length (drop (pos st1) s) = 4" by simp
  then have len: "length s = pos st1 + 4" by simp
  with True have "ends_with s '' ...''" by (simp add: ends_with_def)
  with len True show ?thesis by (simp add: parse_from_type_string_def assms)
next
  case False
  have "\<not> (length s = pos st1 + 4 \<and> ends_with s '' ...'')"
  proof
    assume a: "length s = pos st1 + 4 \<and> ends_with s '' ...''"
    then have "drop (length s - length '' ...'') s = '' ...''" unfolding ends_with_def by blast
    moreover from a have "length s - length '' ...'' = pos st1" by simp
    ultimately show False using False by metis
  qed
  with False show ?thesis
    by (auto simp add: parse_from_type_string_def assms fail_def kphp_error_def)
qed

lemma union_type_string:
  assumes ok: "union_ok e ms" and rest: "follows_union rest"
  shows "parse_from_type_string e (text_of (expected_union e ms) @ rest) st =
    (if rest = '' ...'' then
       (Some (array_of (tree (expected_union e ms))),
        advance (length (text_of (expected_union e ms)) + 4) (unknown (expected_union e ms))
          (reported (expected_union e ms)) (st\<lparr>pos := 0\<rparr>))
     else if rest = [] then
       (Some (tree (expected_union e ms)),
        advance (length (text_of (expected_union e ms))) (unknown (expected_union e ms))
          (reported (expected_union e ms)) (st\<lparr>pos := 0\<rparr>))
     else
       (None,
        advance (length (text_of (expected_union e ms))) (unknown (expected_union e ms))
          (reported (expected_union e ms) @ [TrailingInput]) (st\<lparr>pos := 0\<rparr>)))"
proof -
  let ?u = "expected_union e ms"
  let ?s = "text_of ?u @ rest"
  have "drop (pos (st\<lparr>pos := 0\<rparr>)) ?s = text_of ?u @ rest" by simp
  with union_parses_expected [OF ok] rest
  have "parse_type_expression e ?s (st\<lparr>pos := 0\<rparr>) =
      (Some (tree ?u), advance (length (text_of ?u)) (unknown ?u) (reported ?u) (st\<lparr>pos := 0\<rparr>))"
    unfolding parses_union_def by blast
  from parse_from_type_string_steps [OF this]
  show ?thesis by (auto simp add: array_of_def advance_def)
qed

lemma simple_type_string:
  assumes "simple_ok e x"
  shows "parse_from_type_string e (text_of (expected e x)) st =
    (Some (tree (expected e x)),
     advance (length (text_of (expected e x))) (unknown (expected e x)) (reported (expected e x))
       (st\<lparr>pos := 0\<rparr>))"
proof -
  from assms have "union_ok e [(x, 0)]" by (simp add: union_ok_def)
  from union_type_string [OF this, of "[]" st] show ?thesis
    by (simp add: expected_union_single follows_union_def)
qed

lemma phpdoc_parse_type_union:
  assumes "union_ok e ms"
  shows "phpdoc_parse_type e (text_of (expected_union e ms)) =
    (case unknown (expected_union e ms) of
       [] \<Rightarrow> (Some (tree (expected_union e ms)), reported (expected_union e ms))
     | c # _ \<Rightarrow> (None, reported (expected_union e ms) @ [ClassNotFound c]))"
  using union_type_string [OF assms, of "[]" new_parser]
  by (simp add: phpdoc_parse_type_def follows_union_def new_parser_def split: list.split)

lemma class_type_string:
  assumes "atom_ok e (ClassName c)"
  shows "parse_from_type_string e c st =
    (Some (create_type_help_class_vertex (get_class e (resolve_uses e c))),
     advance (length c) (atom_unknown e (ClassName c)) (atom_diags e (ClassName c)) (st\<lparr>pos := 0\<rparr>))"
proof -
  from assms have "simple_ok e (Atom (ClassName c))" by simp
  from simple_type_string [OF this, of st] show ?thesis by simp
qed

lemma phpdoc_parse_type_class:
  assumes "atom_ok e (ClassName c)"
  shows "phpdoc_parse_type e c =
    (case atom_unknown e (ClassName c) of
       [] \<Rightarrow> (Some (create_type_help_class_vertex (get_class e (resolve_uses e c))),
              atom_diags e (ClassName c))
     | c' # _ \<Rightarrow> (None, atom_diags e (ClassName c) @ [ClassNotFound c']))"
  using class_type_string [OF assms, of new_parser]
  by (simp add: phpdoc_parse_type_def new_parser_def split: list.split)

lemma hello_world:
  "parse_from_type_string e ''hello world'' st =
     (None, st\<lparr>pos := 0, diags := diags st @ [UnknownTypeName ''hello world'']\<rparr>)"
proof -
  have "parse_simple_type e ''hello world'' (st\<lparr>pos := 0\<rparr>) =
      (None, st\<lparr>pos := 0, diags := diags st @ [UnknownTypeName ''hello world'']\<rparr>)"
    by (subst parse_simple_type.simps)
      (simp add: parse_class_name_def starts_with_def is_upper_def chr_backslash_def
        unknown_type_name_def fail_def kphp_error_def)
  then have "parse_type_expression e ''hello world'' (st\<lparr>pos := 0\<rparr>) =
      (None, st\<lparr>pos := 0, diags := diags st @ [UnknownTypeName ''hello world'']\<rparr>)"
    by (subst parse_type_expression.simps, subst parse_type_array.simps) simp
  then show ?thesis by (simp add: parse_from_type_string_def)
qed

lemma Hello_world_expr:
  "parse_type_expression no_classes ''Hello world'' (new_parser\<lparr>pos := 0\<rparr>) =
     (Some (op_type_expr_class None), \<lparr>pos = 5, unknown_classes_list = [''Hello''], diags = []\<rparr>)"
  by code_simp

lemma int_dots_expr:
  "parse_type_expression no_classes ''int ...'' (new_parser\<lparr>pos := 0\<rparr>) =
     (Some (op_type_expr_type tp_int []), \<lparr>pos = 3, unknown_classes_list = [], diags = []\<rparr>)"
  by code_simp

section \<open>Tag values and comment bodies\<close>

subsection \<open>Tokens of a tag value\<close>

lemma takeWhile_not_space:
  "CHR '' '' \<notin> set tok \<Longrightarrow> takeWhile (\<lambda>x. x \<noteq> CHR '' '') (tok @ CHR '' '' # r) = tok"
  by (induction tok) auto

lemma no_leading_space:
  "tok \<noteq> [] \<Longrightarrow> CHR '' '' \<notin> set tok \<Longrightarrow> takeWhile (\<lambda>c. c = CHR '' '') (tok @ r) = []"
  by (cases tok) auto

lemma get_value_token_first:
  assumes tok: "tok \<noteq> []" "CHR '' '' \<notin> set tok"
  shows "get_value_token (tok @ CHR '' '' # r) 0 =
    (if take 4 r = ''...$'' \<and> length r > 4 then tok @ '' ...'' else tok)"
proof -
  let ?v = "tok @ CHR '' '' # r"
  have f: "find_char ?v (CHR '' '') 0 = Some (length tok)"
    by (simp add: find_char_def takeWhile_not_space [OF tok(2)])
  have s: "substr ?v (length tok) 5 = CHR '' '' # take 4 r"
    by (simp add: substr_def)
  have l: "takeWhile (\<lambda>c. c = CHR '' '') ?v = []"
    by (rule no_leading_space [OF tok])
  show ?thesis
  proof (cases "take 4 r = ''...$'' \<and> length r > 4")
    case True
    then have "take 3 (take 4 r) = ''...''" by simp
    then have "take 3 r = ''...''" by simp
    with True show ?thesis
      by (simp add: get_value_token_def Let_def chr_space_def l f s substr_def)
  next
    case False
    then show ?thesis
      by (auto simp add: get_value_token_def Let_def chr_space_def l f s substr_def)
  qed
qed

lemma get_value_token_at_dollar:
  assumes "drop n val = CHR ''$'' # r" and "val \<noteq> [] \<Longrightarrow> hd val \<noteq> CHR '' ''"
  shows "\<exists>r'. get_value_token val n = CHR ''$'' # r'"
proof -
  from assms(1) have n: "n < length val"
    by (metis drop_all list.discI not_less)
  with assms(2) have lead: "takeWhile (\<lambda>c. c = CHR '' '') val = []"
    by (cases val) auto
  have sk: "takeWhile (\<lambda>c. c = CHR '' '') (drop n val) = []"
    by (simp add: assms(1))
  show ?thesis
  proof (cases "find_char val (CHR '' '') n")
    case None
    with n show ?thesis by (simp add: get_value_token_def Let_def chr_space_def lead sk assms(1))
  next
    case (Some p)
    then have "p = n + length (takeWhile (\<lambda>x. x \<noteq> CHR '' '') (drop n val))"
      by (auto simp: find_char_def split: if_splits)
    then have "p > n" by (simp add: assms(1))
    define p' where "p' = (if length val > p + 5 \<and> substr val p 5 = '' ...$'' then p + 4 else p)"
    with \<open>p > n\<close> have "p' - n > 0" by simp
    then obtain k where k: "p' - n = Suc k" by (cases "p' - n") auto
    from n Some have "get_value_token val n = substr val n (p' - n)"
      by (simp add: get_value_token_def Let_def chr_space_def lead sk p'_def)
    also have "\<dots> = CHR ''$'' # take k r"
      by (simp add: substr_def assms(1) k)
    finally show ?thesis by blast
  qed
qed

lemma takeWhile_spaces:
  "t \<noteq> [] \<Longrightarrow> CHR '' '' \<notin> set t
    \<Longrightarrow> takeWhile (\<lambda>c. c = CHR '' '') (replicate j (CHR '' '') @ t @ r) = replicate j (CHR '' '')"
  by (induction j) (auto simp: no_leading_space)

lemma get_value_token_from:
  assumes v: "takeWhile (\<lambda>c. c = CHR '' '') val = []"
    and d: "drop n val = replicate j (CHR '' '') @ t @ r"
    and t: "t \<noteq> []" "CHR '' '' \<notin> set t"
    and r: "r = [] \<or> hd r = CHR '' ''"
  shows "get_value_token val n =
    (if take 5 r = '' ...$'' \<and> length r > 5 then t @ '' ...'' else t)"
proof -
  from drop_past [of n val "replicate j (CHR '' '')" "t @ r"] d
  have d2: "drop (n + j) val = t @ r" by simp
  with t have lt: "n + j < length val"
    by (metis Nil_is_append_conv drop_all not_less)
  have sk: "length (takeWhile (\<lambda>c. c = CHR '' '') (drop n val)) = j"
    by (simp add: d takeWhile_spaces [OF t])
  show ?thesis
  proof (cases r)
    case Nil
    with t d2 have "find_char val (CHR '' '') (n + j) = None"
      by (simp add: find_char_def)
    with lt Nil d2 show ?thesis
      by (simp add: get_value_token_def Let_def chr_space_def v sk)
  next
    case (Cons c r')
    with r have c: "c = CHR '' ''" by simp
    with Cons d2 t have f: "find_char val (CHR '' '') (n + j) = Some (n + j + length t)"
      by (simp add: find_char_def takeWhile_not_space)
    from drop_past [OF d2] have d3: "drop (n + j + length t) val = r" .
    then have len: "length val > n + j + length t + 5 \<longleftrightarrow> length r > 5"
      by (metis add.commute length_drop less_diff_conv)
    have sub: "substr val (n + j + length t) 5 = take 5 r"
      by (simp add: substr_def d3)
    show ?thesis
    proof (cases "take 5 r = '' ...$'' \<and> length r > 5")
      case True
      then have "take 4 (take 5 r) = '' ...''" by simp
      then have "take 4 r = '' ...''" by simp
      with True lt f len show ?thesis
        by (simp add: get_value_token_def Let_def chr_space_def v sk sub;
            simp add: substr_def d2)
    next
      case False
      with lt f len show ?thesis
        by (simp add: get_value_token_def Let_def chr_space_def v sk sub;
            auto simp add: substr_def d2)
    qed
  qed
qed

lemma name_first:
  assumes "CHR '' '' \<notin> set n" "CHR '' '' \<notin> set t" "t \<noteq> []" "CHR ''$'' \<notin> set t"
  shows "name_and_type (CHR ''$'' # n @ '' '' @ t @ replicate k (CHR '' '')) = (n, t)"
proof -
  let ?val = "CHR ''$'' # n @ '' '' @ t @ replicate k (CHR '' '')"
  let ?tail = "'' '' @ t @ replicate k (CHR '' '')"
  have v: "takeWhile (\<lambda>c. c = CHR '' '') ?val = []" by simp
  have 5: "take 5 ?tail \<noteq> '' ...$''"
  proof
    assume "take 5 ?tail = '' ...$''"
    then have "CHR ''$'' \<in> set (take 5 ?tail)" by simp
    then have "CHR ''$'' \<in> set ?tail" by (rule in_set_takeD)
    with assms(4) show False by auto
  qed
  have "drop 0 ?val = replicate 0 (CHR '' '') @ (CHR ''$'' # n) @ ?tail" by simp
  from get_value_token_from [OF v this] assms(1) 5
  have a1: "get_value_token ?val 0 = CHR ''$'' # n" by simp
  have r: "replicate k (CHR '' '') = [] \<or> hd (replicate k (CHR '' '')) = CHR '' ''"
    by (cases k) auto
  have 5: "take 5 (replicate k (CHR '' '')) \<noteq> '' ...$''"
  proof
    assume "take 5 (replicate k (CHR '' '')) = '' ...$''"
    then have "CHR ''$'' \<in> set (take 5 (replicate k (CHR '' '')))" by simp
    then have "CHR ''$'' \<in> set (replicate k (CHR '' ''))" by (rule in_set_takeD)
    then show False by auto
  qed
  have "drop (length (CHR ''$'' # n)) ?val = replicate 1 (CHR '' '') @ t @ replicate k (CHR '' '')"
    by simp
  from get_value_token_from [OF v this assms(3,2) r] 5
  have a2: "get_value_token ?val (length (CHR ''$'' # n)) = t" by simp
  show ?thesis
    unfolding name_and_type_def a1 Let_def a2 by simp
qed

lemma type_first:
  assumes "CHR '' '' \<notin> set n" "CHR '' '' \<notin> set t" "t \<noteq> []" "CHR ''$'' \<notin> set t"
  shows "name_and_type (t @ '' $'' @ n @ replicate k (CHR '' '')) = (n, t)"
proof -
  let ?val = "t @ '' $'' @ n @ replicate k (CHR '' '')"
  let ?tail = "'' $'' @ n @ replicate k (CHR '' '')"
  from assms(2,3) have v: "takeWhile (\<lambda>c. c = CHR '' '') ?val = []"
    by (cases t) auto
  have "drop 0 ?val = replicate 0 (CHR '' '') @ t @ ?tail" by simp
  from get_value_token_from [OF v this assms(3,2)]
  have a1: "get_value_token ?val 0 = t" by simp
  have r: "replicate k (CHR '' '') = [] \<or> hd (replicate k (CHR '' '')) = CHR '' ''"
    by (cases k) auto
  have 5: "take 5 (replicate k (CHR '' '')) \<noteq> '' ...$''"
  proof
    assume "take 5 (replicate k (CHR '' '')) = '' ...$''"
    then have "CHR ''$'' \<in> set (take 5 (replicate k (CHR '' '')))" by simp
    then have "CHR ''$'' \<in> set (replicate k (CHR '' ''))" by (rule in_set_takeD)
    then show False by auto
  qed
  have "drop (length t) ?val = replicate 1 (CHR '' '') @ (CHR ''$'' # n) @ replicate k (CHR '' '')"
    by simp
  from get_value_token_from [OF v this _ _ r] assms(1) 5
  have a2: "get_value_token ?val (length t) = CHR ''$'' # n" by simp
  from assms(3,4) have "hd t \<noteq> CHR ''$''" by (cases t) auto
  with assms(3) show ?thesis
    unfolding name_and_type_def a1 Let_def a2 by simp
qed

lemma name_and_type_examples:
  "name_and_type ''$a bool '' = (''a'', ''bool'')"
  "name_and_type ''bool $a '' = (''a'', ''bool'')"
  "name_and_type ''$a'' = (''a'', [])"
  "name_and_type ''mixed some comment'' = ([], ''mixed'')"
  by (simp_all add: name_and_type_def get_value_token_def find_char_def substr_def chr_space_def)

lemma var_tag_examples:
  "find_tag_in_phpdoc d ''* @var $a bool '' var 0 = Some (name_and_type ''$a bool '')"
  "find_tag_in_phpdoc d ''* @var bool $a '' var 0 = Some (name_and_type ''bool $a '')"
  "find_tag_in_phpdoc d ''* @var $a'' var 0 = Some (name_and_type ''$a'')"
  "find_tag_in_phpdoc d ''* @var mixed some comment'' var 0 =
     Some (name_and_type ''mixed some comment'')"
  by (simp_all add: find_tag_in_phpdoc_def parse_php_doc_def chr_space_def chr_tab_def
      chr_newline_def append_to_back_def
      tag_or_continuation_def starts_with_at_def update_back_def set_line_num_def
      new_php_doc_tag_def get_doc_type_def str2doc_type_def find_char_def)

subsection \<open>Scanning the lines\<close>

lemma split_lines_nonempty: "split_lines cs \<noteq> []"
  by (induction cs) (auto split: list.splits)

lemma well_marked_Cons:
  "ls \<noteq> [] \<Longrightarrow> well_marked hs (l # ls) = ((hs \<or> marker_first l) \<and> well_marked False ls)"
  by (cases ls) auto

lemma scan_lines_well_marked:
  "(scan_lines cs lines hs \<noteq> None) = well_marked hs (split_lines cs)"
proof (induction cs arbitrary: lines hs)
  case Nil
  show ?case by simp
next
  case (Cons c cs)
  obtain l ls where sp: "split_lines cs = l # ls"
    using split_lines_nonempty [of cs] by (cases "split_lines cs") auto
  show ?case
  proof (cases hs)
    case True
    then show ?thesis
      using Cons.IH [of "lines @ [[]]" False] Cons.IH [of lines True]
        Cons.IH [of "append_to_back c lines" True] sp
      by (cases ls) (auto simp: split_lines_nonempty well_marked_Cons)
  next
    case False
    show ?thesis
    proof (cases "c = chr_space \<or> c = chr_tab")
      case True
      then have "c \<noteq> chr_newline" by (auto simp: chr_space_def chr_tab_def chr_newline_def)
      with True False Cons.IH [of lines False] sp show ?thesis
        by (cases ls) (auto simp: marker_first_def blank_char_def)
    next
      case nb: False
      show ?thesis
      proof (cases "c = CHR ''*''")
        case True
        then have "c \<noteq> chr_newline" by (auto simp: chr_newline_def)
        with True False nb Cons.IH [of lines True] sp show ?thesis
          by (cases ls) (auto simp: marker_first_def blank_char_def)
      next
        case ns: False
        with False nb sp show ?thesis
          by (cases ls) (auto simp: marker_first_def blank_char_def split_lines_nonempty well_marked_Cons)
      qed
    qed
  qed
qed

lemma build_tags_nonempty: "result \<noteq> [] \<Longrightarrow> build_tags d n i ls result \<noteq> []"
  by (induction ls arbitrary: i result)
    (auto simp: set_line_num_def tag_or_continuation_def update_back_def Let_def)

subsection \<open>Building the tags\<close>

lemma update_back_length [simp]: "length (update_back f result) = length result"
  by (simp add: update_back_def)

lemma update_back_nth: "Suc k < length result \<Longrightarrow> update_back f result ! k = result ! k"
  by (simp add: update_back_def nth_append nth_butlast)

lemma update_back_last: "result \<noteq> [] \<Longrightarrow> last (update_back f result) = f (last result)"
  by (simp add: update_back_def)

lemma set_line_num_length [simp]: "length (set_line_num d n i result) = length result"
  by (simp add: set_line_num_def)

lemma set_line_num_nth: "Suc k < length result \<Longrightarrow> set_line_num d n i result ! k = result ! k"
  by (simp add: set_line_num_def update_back_nth)

lemma set_line_num_last:
  "result \<noteq> [] \<Longrightarrow> 0 < d \<Longrightarrow>
    last (set_line_num d n i result) = (last result)\<lparr>line_num := Some (line_of d n i)\<rparr>"
  by (simp add: set_line_num_def update_back_last line_of_def)

lemma tag_or_continuation_length:
  "length (tag_or_continuation l result) = length result + (if starts_with_at l then 1 else 0)"
  by (simp add: tag_or_continuation_def Let_def)

lemma tag_or_continuation_nth:
  "Suc k < length result \<Longrightarrow> tag_or_continuation l result ! k = result ! k"
  by (simp add: tag_or_continuation_def Let_def update_back_nth nth_append)

lemma tag_nth: "starts_with_at l \<Longrightarrow> k < length result \<Longrightarrow> tag_or_continuation l result ! k = result ! k"
  by (simp add: tag_or_continuation_def Let_def nth_append)

lemma build_tags_append:
  "build_tags d n i (xs @ ys) result = build_tags d n (i + length xs) ys (build_tags d n i xs result)"
  by (induction xs arbitrary: i result) simp_all

lemma build_tags_length:
  "length (build_tags d n i ls result) = length result + length (filter starts_with_at ls)"
  by (induction ls arbitrary: i result) (simp_all add: tag_or_continuation_length)

lemma build_tags_nth:
  "Suc k < length result \<Longrightarrow> build_tags d n i ls result ! k = result ! k"
proof (induction ls arbitrary: i result)
  case Nil
  show ?case by simp
next
  case (Cons l ls)
  let ?r = "set_line_num d n i (tag_or_continuation l result)"
  from Cons.prems have "Suc k < length (tag_or_continuation l result)"
    by (simp add: tag_or_continuation_length)
  then have "Suc k < length ?r" "?r ! k = tag_or_continuation l result ! k"
    by (simp_all add: set_line_num_nth)
  with Cons.IH [of ?r "Suc i"] Cons.prems show ?case
    by (simp add: tag_or_continuation_nth)
qed

lemma build_tags_after:
  assumes "ls = [] \<or> starts_with_at (hd ls)" and "k < length result"
  shows "build_tags d n i ls result ! k = result ! k"
proof (cases ls)
  case Nil
  then show ?thesis by simp
next
  case (Cons l ls')
  with assms(1) have at: "starts_with_at l" by simp
  let ?r = "set_line_num d n i (tag_or_continuation l result)"
  from at assms(2) have "Suc k < length (tag_or_continuation l result)"
    by (simp add: tag_or_continuation_length)
  then have "Suc k < length ?r" "?r ! k = tag_or_continuation l result ! k"
    by (simp_all add: set_line_num_nth)
  with build_tags_nth [of k ?r d n "Suc i" ls'] tag_nth [OF at assms(2)] Cons show ?thesis
    by simp
qed

lemma continuation_last:
  "\<not> starts_with_at l \<Longrightarrow> result \<noteq> [] \<Longrightarrow>
    last (tag_or_continuation l result) = (last result)\<lparr>tag_value := tag_value (last result) @ chr_space # l\<rparr>"
  by (simp add: tag_or_continuation_def update_back_last)

lemma build_tags_continuations:
  "list_all (\<lambda>c. \<not> starts_with_at c) conts \<Longrightarrow> conts \<noteq> [] \<Longrightarrow> result \<noteq> [] \<Longrightarrow> 0 < d \<Longrightarrow>
    line_num (last (build_tags d n i conts result)) = Some (line_of d n (i + length conts - 1))
    \<and> tag_name (last (build_tags d n i conts result)) = tag_name (last result)
    \<and> tag_type (last (build_tags d n i conts result)) = tag_type (last result)"
proof (induction conts arbitrary: i result)
  case Nil
  then show ?case by simp
next
  case (Cons c conts)
  let ?r = "set_line_num d n i (tag_or_continuation c result)"
  from Cons.prems have c: "\<not> starts_with_at c" and cs: "list_all (\<lambda>c. \<not> starts_with_at c) conts"
    by simp_all
  from c Cons.prems(3) have ne: "tag_or_continuation c result \<noteq> []"
    by (metis length_0_conv tag_or_continuation_length add_cancel_right_right)
  then have ne': "?r \<noteq> []" by (metis length_0_conv set_line_num_length)
  have l: "last ?r = (last result)\<lparr>tag_value := tag_value (last result) @ chr_space # c,
      line_num := Some (line_of d n i)\<rparr>"
    by (simp add: set_line_num_last [OF ne Cons.prems(4)] continuation_last [OF c Cons.prems(3)])
  show ?case
  proof (cases conts)
    case Nil
    with l show ?thesis by simp
  next
    case (Cons c' conts')
    then have "conts \<noteq> []" by simp
    from Cons.IH [OF cs this ne' Cons.prems(4), of "Suc i"] l show ?thesis
      by simp
  qed
qed

lemma tag_last:
  "starts_with_at l \<Longrightarrow>
    last (tag_or_continuation l result) =
      \<lparr>tag_name = takeWhile (\<lambda>c. c \<noteq> chr_space) l,
       tag_type = get_doc_type (takeWhile (\<lambda>c. c \<noteq> chr_space) l),
       tag_value = (case find_char l chr_space 0 of None \<Rightarrow> [] | Some p \<Rightarrow> drop (p + 1) l),
       line_num = None\<rparr>"
  by (simp add: tag_or_continuation_def Let_def)

lemma filter_continuations:
  "list_all (\<lambda>c. \<not> starts_with_at c) conts \<Longrightarrow> filter starts_with_at conts = []"
  by (induction conts) auto

lemma build_tags_tag:
  assumes d: "0 < d"
    and at: "starts_with_at l"
    and conts: "list_all (\<lambda>c. \<not> starts_with_at c) conts"
    and after: "after = [] \<or> starts_with_at (hd after)"
    and r: "result \<noteq> []"
  shows "length result < length (build_tags d n i (l # conts @ after) result)
    \<and> tag_name (build_tags d n i (l # conts @ after) result ! length result)
        = takeWhile (\<lambda>c. c \<noteq> chr_space) l
    \<and> line_num (build_tags d n i (l # conts @ after) result ! length result)
        = Some (line_of d n (i + length conts))"
proof -
  let ?r2 = "set_line_num d n i (tag_or_continuation l result)"
  let ?r3 = "build_tags d n (Suc i) conts ?r2"
  have len2: "length ?r2 = Suc (length result)"
    using at by (simp add: tag_or_continuation_length)
  then have ne2: "?r2 \<noteq> []" by (metis list.size(3) nat.distinct(1))
  have "tag_or_continuation l result \<noteq> []"
    using at by (simp add: tag_or_continuation_def Let_def)
  from set_line_num_last [OF this d, of n i]
  have last2: "tag_name (last ?r2) = takeWhile (\<lambda>c. c \<noteq> chr_space) l"
    "line_num (last ?r2) = Some (line_of d n i)"
    by (simp_all add: tag_last [OF at])
  have len3: "length ?r3 = Suc (length result)"
    using at by (simp add: build_tags_length filter_continuations [OF conts] tag_or_continuation_length)
  then have ne3: "?r3 \<noteq> []" by (metis list.size(3) nat.distinct(1))
  have last3: "tag_name (last ?r3) = takeWhile (\<lambda>c. c \<noteq> chr_space) l
      \<and> line_num (last ?r3) = Some (line_of d n (i + length conts))"
  proof (cases conts)
    case Nil
    with last2 show ?thesis by simp
  next
    case (Cons c cs)
    then have "conts \<noteq> []" by simp
    from build_tags_continuations [OF conts this ne2 d, of n "Suc i"] last2 show ?thesis
      by simp
  qed
  have whole: "build_tags d n i (l # conts @ after) result =
      build_tags d n (Suc i + length conts) after ?r3"
    by (simp add: build_tags_append)
  have k: "length result < length ?r3" by (simp add: len3)
  from build_tags_after [OF after k, of d n "Suc i + length conts"]
  have "build_tags d n i (l # conts @ after) result ! length result = ?r3 ! length result"
    by (simp only: whole)
  also have "\<dots> = last ?r3"
    using len3 ne3 by (simp add: last_conv_nth)
  finally have nth: "build_tags d n i (l # conts @ after) result ! length result = last ?r3" .
  have "length result < length (build_tags d n i (l # conts @ after) result)"
    unfolding whole using len3 by (simp add: build_tags_length)
  with nth last3 show ?thesis by simp
qed

lemma update_back_all:
  "list_all P result \<Longrightarrow> (\<And>t. P t \<Longrightarrow> P (f t)) \<Longrightarrow> list_all P (update_back f result)"
  by (cases result rule: rev_cases) (auto simp: update_back_def)

lemma build_tags_unset:
  "d \<le> 0 \<Longrightarrow> list_all (\<lambda>t. line_num t = None) result \<Longrightarrow>
    list_all (\<lambda>t. line_num t = None) (build_tags d n i ls result)"
proof (induction ls arbitrary: i result)
  case Nil
  then show ?case by simp
next
  case (Cons l ls)
  have "list_all (\<lambda>t. line_num t = None) (tag_or_continuation l result)"
    using Cons.prems(2) by (auto simp: tag_or_continuation_def Let_def intro!: update_back_all)
  with Cons.prems(1) have "list_all (\<lambda>t. line_num t = None)
      (set_line_num d n i (tag_or_continuation l result))"
    by (simp add: set_line_num_def)
  from Cons.IH [OF Cons.prems(1) this] show ?case by simp
qed

lemma leading_tag_line:
  assumes lines: "scan_lines body [[]] False = Some (conts0 @ rest)"
    and conts: "list_all (\<lambda>c. \<not> starts_with_at c) conts0"
    and rest: "rest = [] \<or> starts_with_at (hd rest)"
    and d: "0 < decl"
  shows "line_num (fst (parse_php_doc decl body) ! 0) =
    (if conts0 = [] then None
     else Some (min (decl - (int (length (conts0 @ rest)) - int (length conts0 - 1))) (decl - 2)))"
proof -
  let ?n = "length (conts0 @ rest)"
  let ?r = "build_tags decl ?n 0 conts0 [new_php_doc_tag]"
  have tags: "fst (parse_php_doc decl body) = build_tags decl ?n (length conts0) rest ?r"
    using build_tags_append [of decl ?n 0 conts0 rest "[new_php_doc_tag]"]
    by (simp add: parse_php_doc_def lines)
  have len: "length ?r = 1"
    by (simp add: build_tags_length filter_continuations [OF conts])
  then have "0 < length ?r" by simp
  from build_tags_after [OF rest this, of decl ?n "length conts0"]
  have nth: "fst (parse_php_doc decl body) ! 0 = ?r ! 0" by (simp only: tags)
  have r0: "?r ! 0 = last ?r"
    using len by (cases ?r) auto
  show ?thesis
  proof (cases conts0)
    case Nil
    then show ?thesis by (simp add: nth new_php_doc_tag_def)
  next
    case (Cons c cs)
    then have "conts0 \<noteq> []" by simp
    from build_tags_continuations [OF conts this _ d, of "[new_php_doc_tag]" ?n 0] this
    show ?thesis
      by (simp only: nth r0 line_of_def) simp
  qed
qed

lemma three_lines_scan:
  "scan_lines three_lines [[]] False = Some ([] @ ''@param int $a'' # [''continued''] @ [''@return int''])"
  by (simp add: three_lines_def chr_newline_def chr_space_def chr_tab_def append_to_back_def)

section \<open>The claims\<close>

text \<open>
  C1. The array suffix binds tighter than the union operator, and a union of several
  members is a chain of binary unions leaning to the left. For every well-formed union of
  the grammar, parsing its text gives the vertices of its members folded from the left,
  where the vertex of a member is the vertex of its simple type wrapped in one array for
  each \<^verbatim>\<open>[]\<close> of that member alone. In particular, for simple types \<open>a\<close>, \<open>b\<close> and
  \<open>c\<close>: \<^verbatim>\<open>a|b[]\<close> is the union of \<open>a\<close> and the array of \<open>b\<close>, \<^verbatim>\<open>a|b|c\<close> is the
  union of the union of \<open>a\<close> and \<open>b\<close> with \<open>c\<close>, and \<^verbatim>\<open>a[][]\<close> is the array of the
  array of \<open>a\<close>.
\<close>

theorem array_suffix_binds_tighter_than_union:
  assumes "union_ok e (m # ms)" and "simple_ok e a" and "simple_ok e b" and "simple_ok e c"
  shows "fst (parse_from_type_string e
        (member_text e m @ concat (map (\<lambda>m. CHR ''|'' # member_text e m) ms)) st) =
      Some (foldl op_type_expr_lca (member_tree e m) (map (member_tree e) ms))
    \<and> fst (parse_from_type_string e
        (text_of (expected e a) @ ''|'' @ text_of (expected e b) @ ''[]'') st) =
      Some (op_type_expr_lca (tree (expected e a))
        (op_type_expr_type tp_array [tree (expected e b)]))
    \<and> fst (parse_from_type_string e
        (text_of (expected e a) @ ''|'' @ text_of (expected e b) @ ''|'' @ text_of (expected e c)) st) =
      Some (op_type_expr_lca (op_type_expr_lca (tree (expected e a)) (tree (expected e b)))
        (tree (expected e c)))
    \<and> fst (parse_from_type_string e (text_of (expected e a) @ ''[][]'') st) =
      Some (op_type_expr_type tp_array [op_type_expr_type tp_array [tree (expected e a)]])"
proof -
  have *: "fst (parse_from_type_string e (text_of (expected_union e ms')) st) =
      Some (tree (expected_union e ms'))"
    if "union_ok e ms'" for ms'
    using union_type_string [OF that, of "[]" st] by (simp add: follows_union_def)
  from assms(2-) have ok: "union_ok e [(a, 0), (b, 1)]" "union_ok e [(a, 0), (b, 0), (c, 0)]"
    "union_ok e [(a, 2)]"
    by (simp_all add: union_ok_def)
  from * [OF assms(1)] * [OF ok(1)] * [OF ok(2)] * [OF ok(3)]
  show ?thesis
    by (simp add: expected_union_Cons member_text_def member_tree_def array_of_def numeral_2_eq_2)
qed

text \<open>
  The theorem at \<^verbatim>\<open>int[][]|(A|false[])[]\<close>, \<^verbatim>\<open>A|B[]\<close>, \<^verbatim>\<open>A|B|float\<close> and
  \<^verbatim>\<open>A[][]\<close>.
\<close>

theorem array_suffix_binds_tighter_than_union_witness:
  "union_ok no_classes
     [(Atom (Keyword ''int''), 2), (Paren [(Atom (ClassName ''A''), 0), (Atom (Keyword ''false''), 1)], 1)]
   \<and> simple_ok no_classes (Atom (ClassName ''A'')) \<and> simple_ok no_classes (Atom (ClassName ''B''))
   \<and> simple_ok no_classes (Atom (Keyword ''float''))
   \<and> fst (parse_from_type_string no_classes ''int[][]|(A|false[])[]'' new_parser) =
      Some (op_type_expr_lca
        (op_type_expr_type tp_array [op_type_expr_type tp_array [op_type_expr_type tp_int []]])
        (op_type_expr_type tp_array
          [op_type_expr_lca (op_type_expr_class None)
             (op_type_expr_type tp_array [op_type_expr_type tp_False []])]))
   \<and> fst (parse_from_type_string no_classes ''A|B[]'' new_parser) =
      Some (op_type_expr_lca (op_type_expr_class None)
        (op_type_expr_type tp_array [op_type_expr_class None]))
   \<and> fst (parse_from_type_string no_classes ''A|B|float'' new_parser) =
      Some (op_type_expr_lca (op_type_expr_lca (op_type_expr_class None) (op_type_expr_class None))
        (op_type_expr_type tp_float []))
   \<and> fst (parse_from_type_string no_classes ''A[][]'' new_parser) =
      Some (op_type_expr_type tp_array [op_type_expr_type tp_array [op_type_expr_class None]])"
proof -
  have h: "union_ok no_classes
     [(Atom (Keyword ''int''), 2), (Paren [(Atom (ClassName ''A''), 0), (Atom (Keyword ''false''), 1)], 1)]"
    "simple_ok no_classes (Atom (ClassName ''A''))" "simple_ok no_classes (Atom (ClassName ''B''))"
    "simple_ok no_classes (Atom (Keyword ''float''))"
    by (simp_all add: union_ok_def primitive_keywords_def is_upper_def classname_char_def isalnum_def)
  from array_suffix_binds_tighter_than_union [OF h, of new_parser] h
  show ?thesis
    by (simp add: member_text_def member_tree_def paren_outcome_def union_outcome_def union_of_def
        member_outcome_def array_of_def primitive_keywords_def create_type_help_vertex_def
        create_type_help_class_vertex_def no_classes_def numeral_2_eq_2)
qed

text \<open>
  C2, as the claim states it: parsing \<^verbatim>\<open>hello world\<close> as a whole type string fails with
  the diagnostic for trailing input. It fails, but with the diagnostic for an unknown type
  name: \<^verbatim>\<open>h\<close> starts no keyword, and a class name starts with an upper-case letter or
  a backslash. Nothing was parsed, and trailing input is not reported.
\<close>

theorem hello_world_is_an_unknown_type_name:
  "parse_from_type_string no_classes ''hello world'' new_parser =
     (None, \<lparr>pos = 0, unknown_classes_list = [], diags = [UnknownTypeName ''hello world'']\<rparr>)
   \<and> TrailingInput \<notin> set (diags (snd (parse_from_type_string no_classes ''hello world'' new_parser)))"
  by (simp add: hello_world new_parser_def)

text \<open>
  C2, amended. When \<^verbatim>\<open>parse_from_type_string\<close> returns a type, the position is the end
  of the string. When the type expression was parsed and characters remain that are not
  the variadic suffix, the result is the null vertex and the diagnostic for trailing input
  is reported; so it is for every well-formed union of the grammar followed by such
  characters. The string \<^verbatim>\<open>hello world\<close> fails earlier, with an unknown type name.
\<close>

theorem whole_input_must_be_consumed:
  "(\<forall>v st'. parse_from_type_string e s st = (Some v, st') \<longrightarrow> pos st' = length s)
   \<and> (\<forall>v st1. parse_type_expression e s (st\<lparr>pos := 0\<rparr>) = (Some v, st1)
         \<longrightarrow> pos st1 \<noteq> length s \<longrightarrow> drop (pos st1) s \<noteq> '' ...''
         \<longrightarrow> parse_from_type_string e s st = (None, st1\<lparr>diags := diags st1 @ [TrailingInput]\<rparr>))
   \<and> (\<forall>ms rest. union_ok e ms \<longrightarrow> follows_union rest \<longrightarrow> rest \<noteq> [] \<longrightarrow> rest \<noteq> '' ...''
         \<longrightarrow> (\<exists>st'. parse_from_type_string e (text_of (expected_union e ms) @ rest) st = (None, st')
               \<and> diags st' = diags st @ reported (expected_union e ms) @ [TrailingInput]))
   \<and> parse_from_type_string e ''hello world'' st =
       (None, st\<lparr>pos := 0, diags := diags st @ [UnknownTypeName ''hello world'']\<rparr>)"
proof (intro conjI allI impI)
  fix v st'
  assume a: "parse_from_type_string e s st = (Some v, st')"
  obtain r st1 where p: "parse_type_expression e s (st\<lparr>pos := 0\<rparr>) = (r, st1)"
    by (cases "parse_type_expression e s (st\<lparr>pos := 0\<rparr>)")
  with a obtain w where r: "r = Some w"
    by (cases r) (auto simp: parse_from_type_string_def)
  from a parse_from_type_string_steps [OF p [unfolded r]]
  show "pos st' = length s"
    by (auto split: if_splits)
next
  fix v st1
  assume "parse_type_expression e s (st\<lparr>pos := 0\<rparr>) = (Some v, st1)"
    "pos st1 \<noteq> length s" "drop (pos st1) s \<noteq> '' ...''"
  then show "parse_from_type_string e s st = (None, st1\<lparr>diags := diags st1 @ [TrailingInput]\<rparr>)"
    using parse_from_type_string_steps [of e s st v st1] by simp
next
  fix ms rest
  assume "union_ok e ms" "follows_union rest" "rest \<noteq> []" "rest \<noteq> '' ...''"
  then show "\<exists>st'. parse_from_type_string e (text_of (expected_union e ms) @ rest) st = (None, st')
      \<and> diags st' = diags st @ reported (expected_union e ms) @ [TrailingInput]"
    using union_type_string [of e ms rest st] by simp
next
  show "parse_from_type_string e ''hello world'' st =
       (None, st\<lparr>pos := 0, diags := diags st @ [UnknownTypeName ''hello world'']\<rparr>)"
    by (rule hello_world)
qed

text \<open>
  The theorem at \<^verbatim>\<open>Hello world\<close>, where a class name is parsed first, at \<^verbatim>\<open>int[] x\<close>
  and at \<^verbatim>\<open>int\<close>.
\<close>

theorem whole_input_must_be_consumed_witness:
  "parse_type_expression no_classes ''Hello world'' (new_parser\<lparr>pos := 0\<rparr>) =
     (Some (op_type_expr_class None), \<lparr>pos = 5, unknown_classes_list = [''Hello''], diags = []\<rparr>)
   \<and> parse_from_type_string no_classes ''Hello world'' new_parser =
     (None, \<lparr>pos = 5, unknown_classes_list = [''Hello''], diags = [TrailingInput]\<rparr>)
   \<and> union_ok no_classes [(Atom (Keyword ''int''), 1)] \<and> follows_union '' x''
   \<and> (\<exists>st'. parse_from_type_string no_classes ''int[] x'' new_parser = (None, st')
        \<and> diags st' = [TrailingInput])
   \<and> parse_from_type_string no_classes ''int'' new_parser =
     (Some (op_type_expr_type tp_int []), \<lparr>pos = 3, unknown_classes_list = [], diags = []\<rparr>)
   \<and> pos (snd (parse_from_type_string no_classes ''int'' new_parser)) = length ''int''"
proof -
  note t = whole_input_must_be_consumed [of no_classes "''Hello world''" new_parser]
  from t Hello_world_expr
  have 1: "parse_from_type_string no_classes ''Hello world'' new_parser =
     (None, \<lparr>pos = 5, unknown_classes_list = [''Hello''], diags = [TrailingInput]\<rparr>)"
    by simp
  have 2: "parse_from_type_string no_classes ''int'' new_parser =
     (Some (op_type_expr_type tp_int []), \<lparr>pos = 3, unknown_classes_list = [], diags = []\<rparr>)"
    by code_simp
  from whole_input_must_be_consumed [of no_classes "''int''" new_parser] 2
  have 3: "pos (snd (parse_from_type_string no_classes ''int'' new_parser)) = length ''int''"
    by simp
  have h: "union_ok no_classes [(Atom (Keyword ''int''), 1)]" "follows_union '' x''"
    by (simp_all add: union_ok_def primitive_keywords_def follows_union_def classname_char_def
        isalnum_def is_digit_def is_upper_def is_lower_def chr_backslash_def)
  from whole_input_must_be_consumed [of no_classes "[]" new_parser] h
  have "\<exists>st'. parse_from_type_string no_classes
      (text_of (expected_union no_classes [(Atom (Keyword ''int''), 1)]) @ '' x'') new_parser = (None, st')
      \<and> diags st' = diags new_parser
          @ reported (expected_union no_classes [(Atom (Keyword ''int''), 1)]) @ [TrailingInput]"
    by blast
  then have 4: "\<exists>st'. parse_from_type_string no_classes ''int[] x'' new_parser = (None, st')
        \<and> diags st' = [TrailingInput]"
    by (simp add: expected_union_Cons member_text_def new_parser_def)
  from 1 2 3 4 h Hello_world_expr show ?thesis by blast
qed

text \<open>
  C3, as the claim states it: extraction succeeds exactly when no line has stray text other
  than white space before its marker. The body of three lines \<^verbatim>\<open>* a\<close>, an empty line
  and \<^verbatim>\<open>* b\<close> has no stray text on any line, and extraction fails on it: the newline
  that ends the empty line is read before a marker.
\<close>

theorem blank_line_is_malformed:
  "list_all no_stray_text (split_lines (''* a'' @ [chr_newline, chr_newline] @ ''* b''))
   \<and> parse_php_doc 10 (''* a'' @ [chr_newline, chr_newline] @ ''* b'') = ([], [FailedToParsePhpDoc])"
  by (simp add: parse_php_doc_def no_stray_text_def marker_first_def blank_char_def
      chr_newline_def chr_space_def chr_tab_def append_to_back_def)

text \<open>
  C3, amended. Tag extraction never fails: it returns the tags, and there is always the
  leading one, or it reports that the comment could not be parsed and returns no tag. It
  succeeds exactly when the body is well marked: on every line the first character other
  than space and tab is the marker, except that the last line may hold spaces and tabs only.
\<close>

theorem extraction_succeeds_iff_well_marked:
  "(fst (parse_php_doc d body) \<noteq> [] \<longleftrightarrow> well_marked False (split_lines body))
   \<and> (well_marked False (split_lines body) \<longrightarrow> snd (parse_php_doc d body) = [])
   \<and> (\<not> well_marked False (split_lines body) \<longrightarrow>
        parse_php_doc d body = ([], [FailedToParsePhpDoc]))"
  using scan_lines_well_marked [of body "[[]]" False]
  by (auto simp: parse_php_doc_def build_tags_nonempty new_php_doc_tag_def split: option.splits)

text \<open>
  The theorem at a body of two marked lines and at a body without a marker.
\<close>

theorem extraction_succeeds_iff_well_marked_witness:
  "well_marked False (split_lines (''* a'' @ [chr_newline] @ '' * @var int''))
   \<and> fst (parse_php_doc 0 (''* a'' @ [chr_newline] @ '' * @var int'')) \<noteq> []
   \<and> snd (parse_php_doc 0 (''* a'' @ [chr_newline] @ '' * @var int'')) = []
   \<and> \<not> well_marked False (split_lines ''only comment'')
   \<and> parse_php_doc 0 ''only comment'' = ([], [FailedToParsePhpDoc])"
proof -
  have h: "well_marked False (split_lines (''* a'' @ [chr_newline] @ '' * @var int''))"
    "\<not> well_marked False (split_lines ''only comment'')"
    by (simp_all add: marker_first_def blank_char_def chr_newline_def chr_space_def chr_tab_def)
  from extraction_succeeds_iff_well_marked [of 0 "''* a'' @ [chr_newline] @ '' * @var int''"]
    extraction_succeeds_iff_well_marked [of 0 "''only comment''"] h
  show ?thesis by simp
qed

text \<open>
  C4. The lookup by tag kind takes the token that starts with a dollar sign for the variable
  name and the other one for the type, in either order: for every name and every type text
  without spaces, the type not empty and without a dollar sign, the value with the name
  first and the value with the type first give the same name and type, whatever spaces
  follow. For the tag \<^verbatim>\<open>@var\<close>, the values \<^verbatim>\<open>$a bool \<close> and \<^verbatim>\<open>bool $a \<close> give the
  name \<^verbatim>\<open>a\<close> and the type \<^verbatim>\<open>bool\<close>, the value \<^verbatim>\<open>$a\<close> gives the name \<^verbatim>\<open>a\<close> and
  an empty type, and \<^verbatim>\<open>mixed some comment\<close> gives an empty name and the type
  \<^verbatim>\<open>mixed\<close>.
\<close>

theorem name_and_type_in_either_order:
  assumes "CHR '' '' \<notin> set n" and "CHR '' '' \<notin> set t" and "t \<noteq> []" and "CHR ''$'' \<notin> set t"
  shows "name_and_type (CHR ''$'' # n @ '' '' @ t @ replicate k (CHR '' '')) = (n, t)
    \<and> name_and_type (t @ '' $'' @ n @ replicate k (CHR '' '')) = (n, t)
    \<and> find_tag_in_phpdoc d ''* @var $a bool '' var 0 = Some (''a'', ''bool'')
    \<and> find_tag_in_phpdoc d ''* @var bool $a '' var 0 = Some (''a'', ''bool'')
    \<and> find_tag_in_phpdoc d ''* @var $a'' var 0 = Some (''a'', [])
    \<and> find_tag_in_phpdoc d ''* @var mixed some comment'' var 0 = Some ([], ''mixed'')"
  using name_first [OF assms] type_first [OF assms]
  by (simp add: var_tag_examples name_and_type_examples)

text \<open>
  The theorem at the name \<^verbatim>\<open>a\<close> and the type \<^verbatim>\<open>bool\<close>, one space following.
\<close>

theorem name_and_type_in_either_order_witness:
  "CHR '' '' \<notin> set ''a'' \<and> CHR '' '' \<notin> set ''bool'' \<and> ''bool'' \<noteq> [] \<and> CHR ''$'' \<notin> set ''bool''
   \<and> name_and_type ''$a bool '' = (''a'', ''bool'')
   \<and> name_and_type ''bool $a '' = (''a'', ''bool'')"
proof -
  have h: "CHR '' '' \<notin> set ''a''" "CHR '' '' \<notin> set ''bool''" "''bool'' \<noteq> []"
    "CHR ''$'' \<notin> set ''bool''"
    by simp_all
  from name_and_type_in_either_order [OF h, where k = 1] h show ?thesis by simp
qed

text \<open>
  C5, as the claim states it: a class name that is not in the class table does not make
  the parse of the type string fail, and the unknown classes are reported once the whole
  declaration or program has been scanned. \<^verbatim>\<open>phpdoc_parse_type\<close> on the name of an
  unknown class returns the null vertex and reports the class in that same call.
\<close>

theorem unknown_class_fails_phpdoc_parse_type:
  "phpdoc_parse_type no_classes ''A'' = (None, [ClassNotFound ''A''])"
proof -
  have "atom_ok no_classes (ClassName ''A'')"
    by (simp add: is_upper_def classname_char_def isalnum_def)
  from phpdoc_parse_type_class [OF this] show ?thesis
    by (simp add: no_classes_def)
qed

text \<open>
  C5, amended. A class name that is not in the class table does not make
  \<^verbatim>\<open>parse_from_type_string\<close> fail: the vertex is the class vertex of the null handle that
  the lookup returned, and the resolved name is appended to the list of unknown classes of
  the parser; for every well-formed union of the grammar, the names of its unknown classes
  are appended in their order. \<^verbatim>\<open>phpdoc_parse_type\<close>, when the type string has been parsed
  and the list is not empty, reports the first name of the list and returns the null vertex.
\<close>

theorem unknown_class_is_queued_then_reported:
  assumes "union_ok e ms"
    and "atom_ok e (ClassName c)" and "get_class e (resolve_uses e c) = None"
  shows "parse_from_type_string e c st =
      (Some (create_type_help_class_vertex None),
       st\<lparr>pos := length c, unknown_classes_list := unknown_classes_list st @ [resolve_uses e c]\<rparr>)
    \<and> phpdoc_parse_type e c = (None, [ClassNotFound (resolve_uses e c)])
    \<and> (\<exists>st'. parse_from_type_string e (text_of (expected_union e ms)) st =
            (Some (tree (expected_union e ms)), st')
          \<and> unknown_classes_list st' = unknown_classes_list st @ unknown (expected_union e ms))
    \<and> phpdoc_parse_type e (text_of (expected_union e ms)) =
        (case unknown (expected_union e ms) of
           [] \<Rightarrow> (Some (tree (expected_union e ms)), reported (expected_union e ms))
         | c # _ \<Rightarrow> (None, reported (expected_union e ms) @ [ClassNotFound c]))"
proof -
  have 1: "parse_from_type_string e c st =
      (Some (create_type_help_class_vertex None),
       st\<lparr>pos := length c, unknown_classes_list := unknown_classes_list st @ [resolve_uses e c]\<rparr>)"
    using class_type_string [OF assms(2), of st] assms(3) by (simp add: advance_def)
  have 2: "phpdoc_parse_type e c = (None, [ClassNotFound (resolve_uses e c)])"
    using phpdoc_parse_type_class [OF assms(2)] assms(3) by simp
  have 3: "\<exists>st'. parse_from_type_string e (text_of (expected_union e ms)) st =
            (Some (tree (expected_union e ms)), st')
          \<and> unknown_classes_list st' = unknown_classes_list st @ unknown (expected_union e ms)"
    using union_type_string [OF assms(1), of "[]" st] by (simp add: follows_union_def)
  from 1 2 3 phpdoc_parse_type_union [OF assms(1)] show ?thesis by blast
qed

text \<open>
  The theorem at \<^verbatim>\<open>A\<close> and at \<^verbatim>\<open>int|A[]|B\<close>, no class being registered.
\<close>

theorem unknown_class_is_queued_then_reported_witness:
  "union_ok no_classes
     [(Atom (Keyword ''int''), 0), (Atom (ClassName ''A''), 1), (Atom (ClassName ''B''), 0)]
   \<and> atom_ok no_classes (ClassName ''A'') \<and> get_class no_classes (resolve_uses no_classes ''A'') = None
   \<and> parse_from_type_string no_classes ''A'' new_parser =
       (Some (op_type_expr_class None), \<lparr>pos = 1, unknown_classes_list = [''A''], diags = []\<rparr>)
   \<and> phpdoc_parse_type no_classes ''A'' = (None, [ClassNotFound ''A''])
   \<and> unknown_classes_list (snd (parse_from_type_string no_classes ''int|A[]|B'' new_parser)) = [''A'', ''B'']
   \<and> phpdoc_parse_type no_classes ''int|A[]|B'' = (None, [ClassNotFound ''A''])"
proof -
  have h: "union_ok no_classes
     [(Atom (Keyword ''int''), 0), (Atom (ClassName ''A''), 1), (Atom (ClassName ''B''), 0)]"
    "atom_ok no_classes (ClassName ''A'')" "get_class no_classes (resolve_uses no_classes ''A'') = None"
    by (simp_all add: union_ok_def primitive_keywords_def is_upper_def classname_char_def isalnum_def
        no_classes_def)
  from unknown_class_is_queued_then_reported [OF h, of new_parser] h
  show ?thesis
    by (auto simp add: expected_union_Cons member_text_def no_classes_def new_parser_def
        create_type_help_class_vertex_def)
qed

text \<open>
  C6. A union with a member spelled exactly \<^verbatim>\<open>bool\<close> parses, and the diagnostic that
  recommends \<^verbatim>\<open>false\<close> is reported: for every well-formed union of the grammar the
  parse succeeds, and what it reports is what its members report, followed by that
  diagnostic exactly when there are two members or more and the text of one of them is
  \<^verbatim>\<open>bool\<close>. A member \<^verbatim>\<open>boolean\<close>, \<^verbatim>\<open>bool[]\<close> or \<^verbatim>\<open>(bool)\<close> is not that text,
  and a single member is no union.
\<close>

theorem raw_bool_in_union_is_reported:
  assumes "union_ok e (m # ms)"
  shows "\<exists>st'. parse_from_type_string e
        (member_text e m @ concat (map (\<lambda>m. CHR ''|'' # member_text e m) ms)) st =
        (Some (foldl op_type_expr_lca (member_tree e m) (map (member_tree e) ms)), st')
    \<and> diags st' = diags st @ concat (map (\<lambda>m. reported (expected e (fst m))) (m # ms)) @
        (if ms \<noteq> [] \<and> list_ex (\<lambda>m. member_text e m = ''bool'') (m # ms) then [BoolInUnion]
         else [])"
  using union_type_string [OF assms, of "[]" st]
  by (simp add: follows_union_def expected_union_Cons)

text \<open>
  The theorem at \<^verbatim>\<open>int|bool\<close>, \<^verbatim>\<open>int|boolean\<close>, \<^verbatim>\<open>bool\<close> and \<^verbatim>\<open>(bool)|bool[]\<close>.
\<close>

theorem raw_bool_in_union_is_reported_witness:
  "union_ok no_classes [(Atom (Keyword ''int''), 0), (Atom (Keyword ''bool''), 0)]
   \<and> union_ok no_classes [(Atom (Keyword ''int''), 0), (Atom (Keyword ''boolean''), 0)]
   \<and> union_ok no_classes [(Atom (Keyword ''bool''), 0)]
   \<and> union_ok no_classes [(Paren [(Atom (Keyword ''bool''), 0)], 0), (Atom (Keyword ''bool''), 1)]
   \<and> (\<exists>st'. parse_from_type_string no_classes ''int|bool'' new_parser =
         (Some (op_type_expr_lca (op_type_expr_type tp_int []) (op_type_expr_type tp_bool [])), st')
       \<and> diags st' = [BoolInUnion])
   \<and> (\<exists>st'. parse_from_type_string no_classes ''int|boolean'' new_parser =
         (Some (op_type_expr_lca (op_type_expr_type tp_int []) (op_type_expr_type tp_bool [])), st')
       \<and> diags st' = [])
   \<and> (\<exists>st'. parse_from_type_string no_classes ''bool'' new_parser =
         (Some (op_type_expr_type tp_bool []), st')
       \<and> diags st' = [])
   \<and> (\<exists>st'. parse_from_type_string no_classes ''(bool)|bool[]'' new_parser =
         (Some (op_type_expr_lca (op_type_expr_type tp_bool [])
            (op_type_expr_type tp_array [op_type_expr_type tp_bool []])), st')
       \<and> diags st' = [])"
proof -
  have h: "union_ok no_classes [(Atom (Keyword ''int''), 0), (Atom (Keyword ''bool''), 0)]"
    "union_ok no_classes [(Atom (Keyword ''int''), 0), (Atom (Keyword ''boolean''), 0)]"
    "union_ok no_classes [(Atom (Keyword ''bool''), 0)]"
    "union_ok no_classes [(Paren [(Atom (Keyword ''bool''), 0)], 0), (Atom (Keyword ''bool''), 1)]"
    by (simp_all add: union_ok_def primitive_keywords_def)
  from raw_bool_in_union_is_reported [OF h(1), of new_parser]
    raw_bool_in_union_is_reported [OF h(2), of new_parser]
    raw_bool_in_union_is_reported [OF h(3), of new_parser]
    raw_bool_in_union_is_reported [OF h(4), of new_parser] h
  show ?thesis
    by (simp add: member_text_def member_tree_def paren_outcome_def union_outcome_def union_of_def
        member_outcome_def new_parser_def
        array_of_def primitive_keywords_def create_type_help_vertex_def
        create_type_help_class_vertex_def no_classes_def)
qed

text \<open>
  C7, as the claim states it: a token boundary that is followed by a space, three dots and
  a dollar sign absorbs the dots. When the dollar sign is the last character of the value
  it does not: the test is \<^verbatim>\<open>value.size() > pos + 5\<close>, and the tokens of
  \<^verbatim>\<open>int ...$\<close> are \<^verbatim>\<open>int\<close> and \<^verbatim>\<open>...$\<close>.
\<close>

theorem dots_before_a_last_dollar_are_not_absorbed:
  "get_value_token ''int ...$'' 0 = ''int''
   \<and> get_value_token ''int ...$'' (length ''int'') = ''...$''"
  by (simp add: get_value_token_def find_char_def substr_def chr_space_def)

text \<open>
  C7, amended. In a tag value, a token that is followed by a space, three dots, a dollar
  sign and at least one more character ends after the dots, and the token asked for at the
  end of it starts with the dollar sign. And when a whole type string is parsed and what is
  left after the type expression is exactly a space and three dots, they are consumed and
  the type is wrapped in one more array; so it is for every well-formed union of the grammar
  followed by them.
\<close>

theorem variadic_marker_in_two_steps:
  assumes "tok \<noteq> []" and "CHR '' '' \<notin> set tok" and "rest \<noteq> []"
    and "parse_type_expression e s (st\<lparr>pos := 0\<rparr>) = (Some v, st1)"
    and "drop (pos st1) s = '' ...''"
    and "union_ok e ms"
  shows "get_value_token (tok @ '' ...$'' @ rest) 0 = tok @ '' ...''
    \<and> (\<exists>r. get_value_token (tok @ '' ...$'' @ rest) (length (tok @ '' ...'')) = CHR ''$'' # r)
    \<and> parse_from_type_string e s st =
        (Some (op_type_expr_type tp_array [v]), st1\<lparr>pos := length s\<rparr>)
    \<and> fst (parse_from_type_string e (text_of (expected_union e ms) @ '' ...'') st) =
        Some (op_type_expr_type tp_array [tree (expected_union e ms)])"
proof -
  from assms(3) have "length (''...$'' @ rest) > 4" by (cases rest) auto
  with get_value_token_first [OF assms(1,2), of "''...$'' @ rest"]
  have 1: "get_value_token (tok @ '' ...$'' @ rest) 0 = tok @ '' ...''"
    by simp
  from assms(1,2) have "hd (tok @ '' ...$'' @ rest) \<noteq> CHR '' ''" by (cases tok) auto
  moreover have "drop (length (tok @ '' ...'')) (tok @ '' ...$'' @ rest) = CHR ''$'' # rest"
    by simp
  ultimately have 2: "\<exists>r. get_value_token (tok @ '' ...$'' @ rest) (length (tok @ '' ...''))
      = CHR ''$'' # r"
    using get_value_token_at_dollar by blast
  from parse_from_type_string_steps [OF assms(4)] assms(5)
  have 3: "parse_from_type_string e s st =
        (Some (op_type_expr_type tp_array [v]), st1\<lparr>pos := length s\<rparr>)"
    by simp
  have "follows_union '' ...''"
    by (simp add: follows_union_def classname_char_def isalnum_def is_digit_def is_upper_def
        is_lower_def chr_backslash_def)
  from union_type_string [OF assms(6) this, of st]
  have 4: "fst (parse_from_type_string e (text_of (expected_union e ms) @ '' ...'') st) =
        Some (op_type_expr_type tp_array [tree (expected_union e ms)])"
    by (simp add: array_of_def)
  from 1 2 3 4 show ?thesis by blast
qed

text \<open>
  The theorem at the value \<^verbatim>\<open>int ...$args\<close> and the type strings \<^verbatim>\<open>int ...\<close> and
  \<^verbatim>\<open>int|false ...\<close>.
\<close>

theorem variadic_marker_in_two_steps_witness:
  "''int'' \<noteq> [] \<and> CHR '' '' \<notin> set ''int'' \<and> ''args'' \<noteq> []
   \<and> parse_type_expression no_classes ''int ...'' (new_parser\<lparr>pos := 0\<rparr>) =
       (Some (op_type_expr_type tp_int []), \<lparr>pos = 3, unknown_classes_list = [], diags = []\<rparr>)
   \<and> drop 3 ''int ...'' = '' ...''
   \<and> union_ok no_classes [(Atom (Keyword ''int''), 0), (Atom (Keyword ''false''), 0)]
   \<and> get_value_token ''int ...$args'' 0 = ''int ...''
   \<and> (\<exists>r. get_value_token ''int ...$args'' (length ''int ...'') = CHR ''$'' # r)
   \<and> parse_from_type_string no_classes ''int ...'' new_parser =
       (Some (op_type_expr_type tp_array [op_type_expr_type tp_int []]),
        \<lparr>pos = length ''int ...'', unknown_classes_list = [], diags = []\<rparr>)
   \<and> fst (parse_from_type_string no_classes ''int|false ...'' new_parser) =
       Some (op_type_expr_type tp_array
         [op_type_expr_lca (op_type_expr_type tp_int []) (op_type_expr_type tp_False [])])"
proof -
  have h: "''int'' \<noteq> []" "CHR '' '' \<notin> set ''int''" "''args'' \<noteq> []"
    "drop (pos \<lparr>pos = 3, unknown_classes_list = [], diags = []\<rparr>) ''int ...'' = '' ...''"
    "union_ok no_classes [(Atom (Keyword ''int''), 0), (Atom (Keyword ''false''), 0)]"
    by (simp_all add: union_ok_def primitive_keywords_def)
  from variadic_marker_in_two_steps [OF h(1-3) int_dots_expr h(4,5)] h int_dots_expr
  show ?thesis
    by (simp add: expected_union_Cons member_text_def member_tree_def
        primitive_keywords_def create_type_help_vertex_def)
qed

text \<open>
  C8, as the claim states it: with a known declaration line, the line of every tag is
  computed from the index of the line on which the tag starts. In a comment of three lines,
  before a declaration on line 10, the tag \<^verbatim>\<open>@param\<close> starts on line 0 and goes on
  on line 1: its line is 8, which is computed from line 1, and not 7. The leading tag of
  this comment owns no line, and its line is unset.
\<close>

theorem source_line_of_a_tag_of_two_lines:
  "scan_lines three_lines [[]] False = Some [''@param int $a'', ''continued'', ''@return int'']
   \<and> tag_name (fst (parse_php_doc 10 three_lines) ! 1) = ''@param''
   \<and> line_num (fst (parse_php_doc 10 three_lines) ! 1) = Some 8
   \<and> min (10 - (3 - 0)) (10 - 2) = (7 :: int)
   \<and> line_num (fst (parse_php_doc 10 three_lines) ! 0) = None"
  using three_lines_scan
  by (simp add: parse_php_doc_def tag_or_continuation_def starts_with_at_def update_back_def
      set_line_num_def new_php_doc_tag_def get_doc_type_def str2doc_type_def find_char_def
      chr_space_def)

text \<open>
  C8, amended. When the declaration line is known (positive), the line of a tag that starts
  on a line beginning with \<^verbatim>\<open>@\<close> is the declaration line minus the difference of the
  number of lines and the index of the last line of the tag, and at most the declaration
  line minus 2; the last line of a tag is the last of the lines without \<^verbatim>\<open>@\<close> that follow
  its first line, or its first line. The leading tag has the line computed from the last of
  the lines before the first tag, and none when there is no such line. When the declaration
  line is unknown, no tag has a line.
\<close>

theorem source_line_counts_from_the_last_line_of_the_tag:
  assumes "scan_lines body [[]] False = Some (before @ l # conts @ after)"
    and "starts_with_at l"
    and "list_all (\<lambda>c. \<not> starts_with_at c) conts"
    and "after = [] \<or> starts_with_at (hd after)"
  shows "(0 < decl \<longrightarrow>
      Suc (length (filter starts_with_at before)) < length (fst (parse_php_doc decl body))
      \<and> tag_name (fst (parse_php_doc decl body) ! Suc (length (filter starts_with_at before)))
          = takeWhile (\<lambda>c. c \<noteq> chr_space) l
      \<and> line_num (fst (parse_php_doc decl body) ! Suc (length (filter starts_with_at before)))
          = Some (min (decl - (int (length (before @ l # conts @ after))
                                - int (length before + length conts)))
                      (decl - 2)))
    \<and> (0 < decl \<longrightarrow> (\<forall>conts0 rest. before @ l # conts @ after = conts0 @ rest
          \<longrightarrow> list_all (\<lambda>c. \<not> starts_with_at c) conts0
          \<longrightarrow> rest = [] \<or> starts_with_at (hd rest)
          \<longrightarrow> line_num (fst (parse_php_doc decl body) ! 0) =
              (if conts0 = [] then None
               else Some (min (decl - (int (length (conts0 @ rest)) - int (length conts0 - 1)))
                              (decl - 2)))))
    \<and> (decl \<le> 0 \<longrightarrow> list_all (\<lambda>t. line_num t = None) (fst (parse_php_doc decl body)))"
proof (intro conjI impI allI)
  let ?n = "length (before @ l # conts @ after)"
  let ?r1 = "build_tags decl ?n 0 before [new_php_doc_tag]"
  have tags: "fst (parse_php_doc decl body) = build_tags decl ?n (length before) (l # conts @ after) ?r1"
    using build_tags_append [of decl ?n 0 before "l # conts @ after" "[new_php_doc_tag]"]
    by (simp add: parse_php_doc_def assms(1))
  have len1: "length ?r1 = Suc (length (filter starts_with_at before))"
    by (simp add: build_tags_length)
  then have ne1: "?r1 \<noteq> []" by (metis list.size(3) nat.distinct(1))
  {
    assume d: "0 < decl"
    note t = build_tags_tag [OF d assms(2,3,4) ne1, of ?n "length before"]
    from t show "Suc (length (filter starts_with_at before)) < length (fst (parse_php_doc decl body))"
      unfolding tags len1 by blast
    from t show "tag_name (fst (parse_php_doc decl body) ! Suc (length (filter starts_with_at before)))
          = takeWhile (\<lambda>c. c \<noteq> chr_space) l"
      unfolding tags len1 by blast
    from t show "line_num (fst (parse_php_doc decl body) ! Suc (length (filter starts_with_at before)))
          = Some (min (decl - (int (length (before @ l # conts @ after))
                                - int (length before + length conts)))
                      (decl - 2))"
      unfolding tags len1 line_of_def by blast
  }
  {
    fix conts0 rest
    assume "0 < decl" "before @ l # conts @ after = conts0 @ rest"
      "list_all (\<lambda>c. \<not> starts_with_at c) conts0" "rest = [] \<or> starts_with_at (hd rest)"
    with leading_tag_line [of body conts0 rest decl] assms(1)
    show "line_num (fst (parse_php_doc decl body) ! 0) =
              (if conts0 = [] then None
               else Some (min (decl - (int (length (conts0 @ rest)) - int (length conts0 - 1)))
                              (decl - 2)))"
      by simp
  }
  {
    assume "decl \<le> 0"
    from build_tags_unset [OF this, of "[new_php_doc_tag]" ?n 0 "before @ l # conts @ after"]
    show "list_all (\<lambda>t. line_num t = None) (fst (parse_php_doc decl body))"
      by (simp add: parse_php_doc_def assms(1) new_php_doc_tag_def)
  }
qed

text \<open>
  The theorem at the comment of three lines, before a declaration on line 10 and on line 0.
\<close>

theorem source_line_counts_from_the_last_line_of_the_tag_witness:
  "scan_lines three_lines [[]] False = Some ([] @ ''@param int $a'' # [''continued''] @ [''@return int''])
   \<and> starts_with_at ''@param int $a''
   \<and> list_all (\<lambda>c. \<not> starts_with_at c) [''continued'']
   \<and> ([''@return int''] = [] \<or> starts_with_at (hd [''@return int'']))
   \<and> tag_name (fst (parse_php_doc 10 three_lines) ! 1) = ''@param''
   \<and> line_num (fst (parse_php_doc 10 three_lines) ! 1) = Some 8
   \<and> line_num (fst (parse_php_doc 10 three_lines) ! 0) = None
   \<and> list_all (\<lambda>t. line_num t = None) (fst (parse_php_doc 0 three_lines))"
proof -
  have h: "starts_with_at ''@param int $a''" "list_all (\<lambda>c. \<not> starts_with_at c) [''continued'']"
    "[''@return int''] = [] \<or> starts_with_at (hd [''@return int''])"
    by (simp_all add: starts_with_at_def)
  note t10 = source_line_counts_from_the_last_line_of_the_tag [OF three_lines_scan h, of 10]
  note t0 = source_line_counts_from_the_last_line_of_the_tag [OF three_lines_scan h, of 0]
  have p: "(0::int) < 10" by simp
  from t10 p have "\<forall>conts0 rest.
      [] @ ''@param int $a'' # [''continued''] @ [''@return int''] = conts0 @ rest
      \<longrightarrow> list_all (\<lambda>c. \<not> starts_with_at c) conts0
      \<longrightarrow> rest = [] \<or> starts_with_at (hd rest)
      \<longrightarrow> line_num (fst (parse_php_doc 10 three_lines) ! 0) =
          (if conts0 = [] then None
           else Some (min (10 - (int (length (conts0 @ rest)) - int (length conts0 - 1))) (10 - 2)))"
    by blast
  from this [rule_format, of "[]" "[''@param int $a'', ''continued'', ''@return int'']"] h(1)
  have 0: "line_num (fst (parse_php_doc 10 three_lines) ! 0) = None"
    by simp
  from t10 t0 0 h three_lines_scan
  show ?thesis by (simp add: chr_space_def)
qed

(*THEOREMS*)

text \<open>
  C9, as the claim states it: a class name that resolves to a trait makes the parse of the
  type string fail. The diagnostic is reported, and the parse returns the class vertex of
  the trait; \<^verbatim>\<open>phpdoc_parse_type\<close> returns it as well.
\<close>

theorem trait_parses_to_a_class_vertex:
  "parse_from_type_string one_trait ''T'' new_parser =
     (Some (op_type_expr_class (Some \<lparr>get_name = ''T'', is_trait = True\<rparr>)),
      \<lparr>pos = 1, unknown_classes_list = [], diags = [TraitUsedAsType ''T'']\<rparr>)
   \<and> phpdoc_parse_type one_trait ''T'' =
     (Some (op_type_expr_class (Some \<lparr>get_name = ''T'', is_trait = True\<rparr>)), [TraitUsedAsType ''T''])"
proof -
  have ok: "atom_ok one_trait (ClassName ''T'')"
    by (simp add: is_upper_def classname_char_def isalnum_def)
  from class_type_string [OF ok, of new_parser] phpdoc_parse_type_class [OF ok]
  show ?thesis
    by (simp add: one_trait_def new_parser_def advance_def create_type_help_class_vertex_def)
qed

text \<open>
  C9, amended. When the class name resolves to a registered class that is a trait, the
  diagnostic of its own for a trait used as a type is reported, and the parse goes on:
  \<^verbatim>\<open>parse_from_type_string\<close> and \<^verbatim>\<open>phpdoc_parse_type\<close> return the class vertex
  of the trait.
\<close>

theorem trait_is_reported_and_the_parse_goes_on:
  assumes "atom_ok e (ClassName c)" and "get_class e (resolve_uses e c) = Some k" and "is_trait k"
  shows "parse_from_type_string e c st =
      (Some (create_type_help_class_vertex (Some k)),
       st\<lparr>pos := length c, diags := diags st @ [TraitUsedAsType (get_name k)]\<rparr>)
    \<and> phpdoc_parse_type e c =
      (Some (create_type_help_class_vertex (Some k)), [TraitUsedAsType (get_name k)])"
  using class_type_string [OF assms(1), of st] phpdoc_parse_type_class [OF assms(1)] assms(2,3)
  by (simp add: advance_def)

text \<open>
  The theorem at \<^verbatim>\<open>T\<close>, a registered trait.
\<close>

theorem trait_is_reported_and_the_parse_goes_on_witness:
  "atom_ok one_trait (ClassName ''T'')
   \<and> get_class one_trait (resolve_uses one_trait ''T'') = Some \<lparr>get_name = ''T'', is_trait = True\<rparr>
   \<and> is_trait \<lparr>get_name = ''T'', is_trait = True\<rparr>
   \<and> parse_from_type_string one_trait ''T'' new_parser =
     (Some (op_type_expr_class (Some \<lparr>get_name = ''T'', is_trait = True\<rparr>)),
      \<lparr>pos = 1, unknown_classes_list = [], diags = [TraitUsedAsType ''T'']\<rparr>)"
proof -
  have h: "atom_ok one_trait (ClassName ''T'')"
    "get_class one_trait (resolve_uses one_trait ''T'') = Some \<lparr>get_name = ''T'', is_trait = True\<rparr>"
    "is_trait \<lparr>get_name = ''T'', is_trait = True\<rparr>"
    by (simp_all add: is_upper_def classname_char_def isalnum_def one_trait_def)
  from trait_is_reported_and_the_parse_goes_on [OF h, of new_parser] h
  show ?thesis
    by (simp add: new_parser_def create_type_help_class_vertex_def)
qed

text \<open>
  C10. The closing bracket of a parameterized type is accepted as \<^verbatim>\<open>>\<close> or \<^verbatim>\<open>)\<close>
  whichever bracket opened it: for each of the four spellings of \<^verbatim>\<open>tuple\<close> and
  \<^verbatim>\<open>future\<close>, either opening bracket, either closing bracket and every list of
  well-formed unions as arguments, the type string parses to the same vertex, and nothing
  is reported but what the arguments report.
\<close>

theorem either_closing_bracket_is_accepted:
  assumes "k \<in> set nested_keywords"
    and "ob = CHR ''<'' \<or> ob = CHR ''(''"
    and "cb = CHR ''>'' \<or> cb = CHR '')''"
    and "list_all (union_ok e) (u # us)"
  shows "\<exists>st'. parse_from_type_string e
        (fst k @ ob # text_of (expected_union e u)
           @ concat (map (\<lambda>u. CHR '','' # text_of (expected_union e u)) us) @ [cb]) st =
        (Some (op_type_expr_type (snd k) (map (\<lambda>u. tree (expected_union e u)) (u # us))), st')
      \<and> diags st' = diags st @ concat (map (\<lambda>u. reported (expected_union e u)) (u # us))"
proof -
  from assms have "simple_ok e (Nested k ob cb (u # us))"
    by (auto simp: union_ok_def list_all_iff)
  from simple_type_string [OF this, of st] show ?thesis
    by (simp add: nested_outcome_def expected_union_def comp_def)
qed

text \<open>
  The theorem at \<^verbatim>\<open>tuple<int,string)\<close> and \<^verbatim>\<open>future(int>\<close>.
\<close>

theorem either_closing_bracket_is_accepted_witness:
  "(''tuple'', tp_tuple) \<in> set nested_keywords \<and> (''future'', tp_future) \<in> set nested_keywords
   \<and> list_all (union_ok no_classes) [[(Atom (Keyword ''int''), 0)], [(Atom (Keyword ''string''), 0)]]
   \<and> list_all (union_ok no_classes) [[(Atom (Keyword ''int''), 0)]]
   \<and> (\<exists>st'. parse_from_type_string no_classes ''tuple<int,string)'' new_parser =
          (Some (op_type_expr_type tp_tuple
             [op_type_expr_type tp_int [], op_type_expr_type tp_string []]), st')
        \<and> diags st' = [])
   \<and> (\<exists>st'. parse_from_type_string no_classes ''future(int>'' new_parser =
          (Some (op_type_expr_type tp_future [op_type_expr_type tp_int []]), st')
        \<and> diags st' = [])"
proof -
  have h: "(''tuple'', tp_tuple) \<in> set nested_keywords"
    "(''future'', tp_future) \<in> set nested_keywords"
    "list_all (union_ok no_classes) [[(Atom (Keyword ''int''), 0)], [(Atom (Keyword ''string''), 0)]]"
    "list_all (union_ok no_classes) [[(Atom (Keyword ''int''), 0)]]"
    by (simp_all add: nested_keywords_def union_ok_def primitive_keywords_def)
  from either_closing_bracket_is_accepted [OF h(1) _ _ h(3), of "CHR ''<''" "CHR '')''" new_parser]
    either_closing_bracket_is_accepted [OF h(2) _ _ h(4), of "CHR ''(''" "CHR ''>''" new_parser] h
  show ?thesis
    by (simp add: expected_union_def union_outcome_def union_of_def member_outcome_def
        primitive_keywords_def create_type_help_vertex_def new_parser_def)
qed

end
